theory Spec2Isabelle
  imports Main "HOL-Library.Word"
begin

section \<open>The SIL data model used by DeadCodeElimination.cpp\<close>

text \<open>
  The pass works on pointers into a mutable graph.  Instructions and basic blocks live in
  two arenas addressed by handles (the pointer values); a destroyed object leaves
  \<open>None\<close> behind, and reading through a handle of a destroyed object is an error.
  Use-lists are stored explicitly, per value, as lists of operand slots
  (user instruction, operand index); they are not computed from the operands.
\<close>

type_synonym iid = nat
type_synonym bid = nat

datatype SILValue = InstResult iid | BlockArg bid nat

datatype error = AssertionFailed | UseAfterErase | NullDeref | MalformedBlock

datatype APInt = APInt (BitWidth: nat) (VAL: nat)

text \<open>
  The instruction kinds the pass distinguishes.  \<open>ApplyInst ft\<close> carries what the type
  query of \<open>isCallToNoReturn\<close> finds for the callee: \<open>Some nr\<close> when the callee type is a
  function type whose no-return attribute is \<open>nr\<close>, \<open>None\<close> when it is not a function
  type.  The operands of \<open>CondBranchInst t n f\<close> are the condition, then \<open>n\<close> arguments for
  the true successor \<open>t\<close>, then the arguments for the false successor \<open>f\<close>.
\<close>

datatype ValueKind =
    IntegerLiteralInst APInt
  | ApplyInst "bool option"
  | OtherInst
  | CondBranchInst bid nat bid
  | BranchInst bid
  | UnreachableInst
  | OtherTermInst "bid list"

record SILInstruction =
  kind :: ValueKind
  operands :: "SILValue option list"
  sideEffects :: bool

text \<open>The two statistics are declared with LLVM's \<open>STATISTIC\<close> macro (lines 19-20).  The
  class \<open>llvm::Statistic\<close> is not in the source file; it holds an \<open>unsigned\<close> value
  of 32 bits, and \<open>++\<close> on it wraps around.\<close>

record SILModule =
  insts :: "SILInstruction option list"
  uses :: "SILValue \<Rightarrow> (iid \<times> nat) list"
  blocks :: "iid list option list"
  funcs :: "bid list list"
  NumBlocksRemoved :: "32 word"
  NumInstructionsRemoved :: "32 word"

text \<open>
  The build and the hashing the pass runs under: whether \<open>assert\<close> is compiled out, and
  the order in which a \<open>DenseSet\<close> with given contents is iterated (a key per element).
\<close>

record env =
  NDEBUG :: bool
  DenseOrder :: "iid list \<Rightarrow> iid \<Rightarrow> nat"

definition DenseSet_iter :: "env \<Rightarrow> iid list \<Rightarrow> iid list" where
  "DenseSet_iter E S = sort_key (DenseOrder E S) S"

definition getInst :: "SILModule \<Rightarrow> iid \<Rightarrow> error + SILInstruction" where
  "getInst M I =
     (if I < length (insts M)
      then (case insts M ! I of None \<Rightarrow> Inl UseAfterErase | Some x \<Rightarrow> Inr x)
      else Inl UseAfterErase)"

definition getBlock :: "SILModule \<Rightarrow> bid \<Rightarrow> error + iid list" where
  "getBlock M BB =
     (if BB < length (blocks M)
      then (case blocks M ! BB of None \<Rightarrow> Inl UseAfterErase | Some l \<Rightarrow> Inr l)
      else Inl UseAfterErase)"

text \<open>The instructions linked into a block; none for a destroyed block.\<close>

definition blockList :: "SILModule \<Rightarrow> bid \<Rightarrow> iid list" where
  "blockList M b = (case getBlock M b of Inl e \<Rightarrow> [] | Inr l \<Rightarrow> l)"

definition isTermInst :: "ValueKind \<Rightarrow> bool" where
  "isTermInst k =
     (case k of
        CondBranchInst t n f \<Rightarrow> True
      | BranchInst d \<Rightarrow> True
      | UnreachableInst \<Rightarrow> True
      | OtherTermInst ss \<Rightarrow> True
      | _ \<Rightarrow> False)"

definition use_empty :: "SILModule \<Rightarrow> iid \<Rightarrow> bool" where
  "use_empty M I = (uses M (InstResult I) = [])"

definition mayHaveSideEffects :: "SILInstruction \<Rightarrow> bool" where
  "mayHaveSideEffects x = sideEffects x"

text \<open>\<open>Operand::get\<close> and \<open>Operand::drop\<close> on operand \<open>k\<close> of instruction \<open>I\<close>.  Dropping
  unlinks the operand slot from the use-list of the value it holds and nulls the slot.\<close>

definition Operand_get :: "SILModule \<Rightarrow> iid \<Rightarrow> nat \<Rightarrow> error + SILValue option" where
  "Operand_get M I k =
     (case getInst M I of
        Inl e \<Rightarrow> Inl e
      | Inr x \<Rightarrow> if k < length (operands x) then Inr (operands x ! k) else Inl NullDeref)"

definition Operand_drop :: "SILModule \<Rightarrow> iid \<Rightarrow> nat \<Rightarrow> error + SILModule" where
  "Operand_drop M I k =
     (case getInst M I of
        Inl e \<Rightarrow> Inl e
      | Inr x \<Rightarrow>
          if k < length (operands x)
          then (case operands x ! k of
                  None \<Rightarrow> Inr M
                | Some v \<Rightarrow>
                    Inr (M\<lparr>insts := (insts M)[I := Some (x\<lparr>operands := (operands x)[k := None]\<rparr>)],
                           uses := (uses M)(v := remove1 (I, k) (uses M v))\<rparr>))
          else Inl NullDeref)"

text \<open>\<open>eraseFromParent\<close>: the instruction is unlinked from the block that holds it and
  destroyed.  It touches no use-list.\<close>

definition eraseFromParent :: "SILModule \<Rightarrow> iid \<Rightarrow> error + SILModule" where
  "eraseFromParent M I =
     (case getInst M I of
        Inl e \<Rightarrow> Inl e
      | Inr x \<Rightarrow>
          Inr (M\<lparr>insts := (insts M)[I := None],
                 blocks := map (map_option (removeAll I)) (blocks M)\<rparr>))"

section \<open>The liveness test and the cascading deleter\<close>

definition isInstructionTriviallyDead :: "SILModule \<Rightarrow> iid \<Rightarrow> error + bool" where
  "isInstructionTriviallyDead M I =
     (case getInst M I of
        Inl e \<Rightarrow> Inl e
      | Inr x \<Rightarrow>
          if \<not> use_empty M I \<or> isTermInst (kind x) then Inr False
          else if \<not> mayHaveSideEffects x then Inr True
          else Inr False)"

text \<open>The \<open>for\<close> loop over the operands of the instruction being deleted (lines 52-65):
  \<open>ks\<close> are the operand indices still to visit, \<open>DeadInsts\<close> is the worklist, its top
  first.\<close>

fun dropOperands :: "SILModule \<Rightarrow> iid \<Rightarrow> nat list \<Rightarrow> iid list \<Rightarrow> error + SILModule \<times> iid list" where
  "dropOperands M I [] DeadInsts = Inr (M, DeadInsts)"
| "dropOperands M I (k # ks) DeadInsts =
     (case Operand_get M I k of
        Inl e \<Rightarrow> Inl e
      | Inr OpVal \<Rightarrow>
          (case Operand_drop M I k of
             Inl e \<Rightarrow> Inl e
           | Inr M1 \<Rightarrow>
               (case OpVal of
                  None \<Rightarrow> Inl NullDeref
                | Some (BlockArg b a) \<Rightarrow> dropOperands M1 I ks DeadInsts
                | Some (InstResult OpValInst) \<Rightarrow>
                    (case isInstructionTriviallyDead M1 OpValInst of
                       Inl e \<Rightarrow> Inl e
                     | Inr d \<Rightarrow>
                         dropOperands M1 I ks
                           (if d then OpValInst # DeadInsts else DeadInsts)))))"

text \<open>One round of the \<open>do\<close> loop (lines 48-68) for the popped instruction \<open>I\<close>.\<close>

definition deleteInst :: "SILModule \<Rightarrow> iid \<Rightarrow> iid list \<Rightarrow> error + SILModule \<times> iid list" where
  "deleteInst M I DeadInsts =
     (case getInst M I of
        Inl e \<Rightarrow> Inl e
      | Inr x \<Rightarrow>
          (case dropOperands M I [0..<length (operands x)] DeadInsts of
             Inl e \<Rightarrow> Inl e
           | Inr (M1, D1) \<Rightarrow>
               (case eraseFromParent M1 I of
                  Inl e \<Rightarrow> Inl e
                | Inr M2 \<Rightarrow> Inr (M2, D1))))"

definition isLive :: "SILModule \<Rightarrow> iid \<Rightarrow> bool" where
  "isLive M I = (I < length (insts M) \<and> insts M ! I \<noteq> None)"

definition numLive :: "SILModule \<Rightarrow> nat" where
  "numLive M = card {I. isLive M I}"

lemma getInst_Inr_iff:
  "getInst M I = Inr x \<longleftrightarrow> I < length (insts M) \<and> insts M ! I = Some x"
  by (simp add: getInst_def split: option.splits)

lemma isLive_getInst: "isLive M I \<longleftrightarrow> (\<exists>x. getInst M I = Inr x)"
  by (auto simp: isLive_def getInst_Inr_iff)

lemma finite_isLive: "finite {I. isLive M I}"
  by (rule finite_subset [of _ "{..<length (insts M)}"]) (auto simp: isLive_def)

lemma Operand_drop_isLive:
  "Operand_drop M I k = Inr M1 \<Longrightarrow> isLive M1 J = isLive M J"
  by (auto simp: Operand_drop_def getInst_Inr_iff isLive_def nth_list_update
      split: sum.splits if_splits option.splits)

lemma Operand_drop_numLive:
  "Operand_drop M I k = Inr M1 \<Longrightarrow> numLive M1 = numLive M"
  by (simp add: numLive_def Operand_drop_isLive)

lemma dropOperands_numLive:
  "dropOperands M I ks D = Inr (M1, D1) \<Longrightarrow> numLive M1 = numLive M"
proof (induction ks arbitrary: M D)
  case Nil
  then show ?case by simp
next
  case (Cons k ks)
  then show ?case
    by (auto split: sum.splits option.splits SILValue.splits
        dest!: Operand_drop_numLive)
qed

lemma eraseFromParent_isLive:
  "eraseFromParent M I = Inr M2 \<Longrightarrow> isLive M2 J = (isLive M J \<and> J \<noteq> I)"
  by (auto simp: eraseFromParent_def getInst_Inr_iff isLive_def nth_list_update
      split: sum.splits if_splits)

lemma eraseFromParent_was_live:
  "eraseFromParent M I = Inr M2 \<Longrightarrow> isLive M I"
  by (auto simp: eraseFromParent_def isLive_getInst split: sum.splits)

lemma eraseFromParent_numLive:
  assumes "eraseFromParent M I = Inr M2"
  shows "numLive M2 < numLive M"
proof -
  have "{J. isLive M2 J} = {J. isLive M J} - {I}"
    using eraseFromParent_isLive [OF assms] by auto
  then show ?thesis
    using card_Diff1_less [of "{J. isLive M J}" I] eraseFromParent_was_live [OF assms]
    by (simp add: numLive_def finite_isLive)
qed

lemma deleteInst_numLive:
  "deleteInst M I D = Inr (M2, D2) \<Longrightarrow> numLive M2 < numLive M"
  by (auto simp: deleteInst_def split: sum.splits
      dest!: dropOperands_numLive eraseFromParent_numLive)

text \<open>The \<open>do ... while (!DeadInsts.empty())\<close> loop: it is entered with one element on
  the worklist, so it is the \<open>while\<close> loop over the worklist.\<close>

function deleteLoop :: "SILModule \<Rightarrow> iid list \<Rightarrow> error + SILModule" where
  "deleteLoop M [] = Inr M"
| "deleteLoop M (I # DeadInsts) =
     (case deleteInst M I DeadInsts of
        Inl e \<Rightarrow> Inl e
      | Inr (M2, D2) \<Rightarrow> deleteLoop M2 D2)"
  by pat_completeness auto
termination
  by (relation "measure (\<lambda>(M, D). numLive M)") (auto dest: deleteInst_numLive)

definition recursivelyDeleteTriviallyDeadInstructions ::
  "SILModule \<Rightarrow> iid option \<Rightarrow> error + bool \<times> SILModule" where
  "recursivelyDeleteTriviallyDeadInstructions M Iopt =
     (case Iopt of
        None \<Rightarrow> Inr (False, M)
      | Some I \<Rightarrow>
          (case isInstructionTriviallyDead M I of
             Inl e \<Rightarrow> Inl e
           | Inr d \<Rightarrow>
               if \<not> d then Inr (False, M)
               else (case deleteLoop M [I] of
                       Inl e \<Rightarrow> Inl e
                     | Inr M' \<Rightarrow> Inr (True, M'))))"

section \<open>Deleting a set of instructions\<close>

text \<open>The operand scan of lines 88-93: the instructions that define an operand and are not
  themselves in \<open>ToBeDeleted\<close> are inserted into the set \<open>PossiblyDead\<close>.\<close>

fun collectPossiblyDead :: "iid list \<Rightarrow> SILValue option list \<Rightarrow> iid list \<Rightarrow> iid list" where
  "collectPossiblyDead ToBeDeleted [] PossiblyDead = PossiblyDead"
| "collectPossiblyDead ToBeDeleted (Op # Ops) PossiblyDead =
     (case Op of
        Some (InstResult V) \<Rightarrow>
          collectPossiblyDead ToBeDeleted Ops
            (if V \<notin> set ToBeDeleted then List.insert V PossiblyDead else PossiblyDead)
      | _ \<Rightarrow> collectPossiblyDead ToBeDeleted Ops PossiblyDead)"

text \<open>Modelled from the spec: \<open>dropAllReferences\<close> is not in the source file; it drops all
  of the instruction's outgoing operand edges.\<close>

fun dropAll :: "SILModule \<Rightarrow> iid \<Rightarrow> nat list \<Rightarrow> error + SILModule" where
  "dropAll M I [] = Inr M"
| "dropAll M I (k # ks) =
     (case Operand_drop M I k of
        Inl e \<Rightarrow> Inl e
      | Inr M1 \<Rightarrow> dropAll M1 I ks)"

definition dropAllReferences :: "SILModule \<Rightarrow> iid \<Rightarrow> error + SILModule" where
  "dropAllReferences M I =
     (case getInst M I of
        Inl e \<Rightarrow> Inl e
      | Inr x \<Rightarrow> dropAll M I [0..<length (operands x)])"

text \<open>The first loop of \<open>eraseAndCleanup\<close> (lines 83-97), over the instructions still to
  visit.\<close>

fun dropReferences ::
  "SILModule \<Rightarrow> iid list \<Rightarrow> iid list \<Rightarrow> iid list \<Rightarrow> error + SILModule \<times> iid list" where
  "dropReferences M ToBeDeleted [] PossiblyDead = Inr (M, PossiblyDead)"
| "dropReferences M ToBeDeleted (DI # rest) PossiblyDead =
     (case getInst M DI of
        Inl e \<Rightarrow> Inl e
      | Inr x \<Rightarrow>
          (case dropAllReferences M DI of
             Inl e \<Rightarrow> Inl e
           | Inr M1 \<Rightarrow>
               dropReferences M1 ToBeDeleted rest
                 (collectPossiblyDead ToBeDeleted (operands x) PossiblyDead)))"

text \<open>The second loop (lines 100-102): \<open>AdditionalChanged &= ...\<close>.\<close>

fun deletePossiblyDead :: "SILModule \<Rightarrow> iid list \<Rightarrow> bool \<Rightarrow> error + bool \<times> SILModule" where
  "deletePossiblyDead M [] AdditionalChanged = Inr (AdditionalChanged, M)"
| "deletePossiblyDead M (I # rest) AdditionalChanged =
     (case recursivelyDeleteTriviallyDeadInstructions M (Some I) of
        Inl e \<Rightarrow> Inl e
      | Inr (r, M1) \<Rightarrow> deletePossiblyDead M1 rest (AdditionalChanged \<and> r))"

text \<open>The third loop (lines 105-108).\<close>

fun eraseAll :: "SILModule \<Rightarrow> iid list \<Rightarrow> error + SILModule" where
  "eraseAll M [] = Inr M"
| "eraseAll M (I # rest) =
     (case eraseFromParent M I of
        Inl e \<Rightarrow> Inl e
      | Inr M1 \<Rightarrow> eraseAll M1 rest)"

definition eraseAndCleanup :: "env \<Rightarrow> SILModule \<Rightarrow> iid list \<Rightarrow> error + bool \<times> SILModule" where
  "eraseAndCleanup E M ToBeDeleted =
     (case dropReferences M ToBeDeleted (DenseSet_iter E ToBeDeleted) [] of
        Inl e \<Rightarrow> Inl e
      | Inr (M1, PossiblyDead) \<Rightarrow>
          (case deletePossiblyDead M1 (DenseSet_iter E PossiblyDead) False of
             Inl e \<Rightarrow> Inl e
           | Inr (AdditionalChanged, M2) \<Rightarrow>
               (case eraseAll M2 (DenseSet_iter E ToBeDeleted) of
                  Inl e \<Rightarrow> Inl e
                | Inr M3 \<Rightarrow> Inr (AdditionalChanged, M3))))"

text \<open>The overload for one instruction (lines 115-119).\<close>

definition eraseAndCleanupInst :: "env \<Rightarrow> SILModule \<Rightarrow> iid \<Rightarrow> error + bool \<times> SILModule" where
  "eraseAndCleanupInst E M I = eraseAndCleanup E M (List.insert I [])"

section \<open>Blocks, terminators and the builder\<close>

text \<open>Modelled from the spec: \<open>getTerminator\<close>, the successor list of a terminator and
  the builder are not in the source file.  A block's terminator is its last instruction;
  the builder appends a fully linked instruction to the block, registering each operand
  in the use-list of its value.\<close>

definition getTerminator :: "SILModule \<Rightarrow> bid \<Rightarrow> error + iid" where
  "getTerminator M BB =
     (case getBlock M BB of
        Inl e \<Rightarrow> Inl e
      | Inr l \<Rightarrow>
          if l = [] then Inl MalformedBlock
          else (case getInst M (last l) of
                  Inl e \<Rightarrow> Inl e
                | Inr x \<Rightarrow> if isTermInst (kind x) then Inr (last l) else Inl MalformedBlock))"

definition getSuccessors :: "ValueKind \<Rightarrow> bid list" where
  "getSuccessors k =
     (case k of
        CondBranchInst t n f \<Rightarrow> [t, f]
      | BranchInst d \<Rightarrow> [d]
      | OtherTermInst ss \<Rightarrow> ss
      | _ \<Rightarrow> [])"

definition successors :: "SILModule \<Rightarrow> bid \<Rightarrow> error + bid list" where
  "successors M BB =
     (case getTerminator M BB of
        Inl e \<Rightarrow> Inl e
      | Inr TI \<Rightarrow>
          (case getInst M TI of
             Inl e \<Rightarrow> Inl e
           | Inr x \<Rightarrow> Inr (getSuccessors (kind x))))"

fun addUses :: "iid \<Rightarrow> nat \<Rightarrow> SILValue list \<Rightarrow> (SILValue \<Rightarrow> (iid \<times> nat) list) \<Rightarrow> SILValue \<Rightarrow> (iid \<times> nat) list" where
  "addUses n k [] U = U"
| "addUses n k (v # vs) U = addUses n (Suc k) vs (U(v := (n, k) # U v))"

definition insertAtEnd :: "SILModule \<Rightarrow> bid \<Rightarrow> SILInstruction \<Rightarrow> error + iid \<times> SILModule" where
  "insertAtEnd M BB x =
     (case getBlock M BB of
        Inl e \<Rightarrow> Inl e
      | Inr l \<Rightarrow>
          Inr (length (insts M),
               M\<lparr>insts := insts M @ [Some x],
                  blocks := (blocks M)[BB := Some (l @ [length (insts M)])]\<rparr>))"

definition createBranch ::
  "SILModule \<Rightarrow> bid \<Rightarrow> bid \<Rightarrow> SILValue option list \<Rightarrow> error + iid \<times> SILModule" where
  "createBranch M BB Dest Args =
     (if None \<in> set Args then Inl NullDeref
      else (case insertAtEnd M BB \<lparr>kind = BranchInst Dest, operands = Args, sideEffects = False\<rparr> of
              Inl e \<Rightarrow> Inl e
            | Inr (BI, M1) \<Rightarrow>
                Inr (BI, M1\<lparr>uses := addUses BI 0 (map the Args) (uses M1)\<rparr>)))"

definition createUnreachable :: "SILModule \<Rightarrow> bid \<Rightarrow> error + iid \<times> SILModule" where
  "createUnreachable M BB =
     insertAtEnd M BB \<lparr>kind = UnreachableInst, operands = [], sideEffects = False\<rparr>"

section \<open>Constant folding of terminators\<close>

text \<open>Modelled from the spec: \<open>APInt::operator==\<close> is LLVM's; it asserts that the two bit
  widths agree and compares the values.\<close>

definition APInt_eq :: "env \<Rightarrow> APInt \<Rightarrow> APInt \<Rightarrow> error + bool" where
  "APInt_eq E a b =
     (if BitWidth a \<noteq> BitWidth b \<and> \<not> NDEBUG E then Inl AssertionFailed
      else Inr (VAL a = VAL b))"

text \<open>Lines 135-144: the successor is chosen from the literal \<open>v\<close> and the new branch is
  created; \<open>Args\<close> are the branch arguments of the conditional branch, the \<open>n\<close> true ones
  first.  With \<open>NDEBUG\<close> the \<open>assert\<close> and the comparison in it are not evaluated.\<close>

definition createFoldedBranch ::
  "env \<Rightarrow> SILModule \<Rightarrow> bid \<Rightarrow> APInt \<Rightarrow> bid \<Rightarrow> nat \<Rightarrow> bid \<Rightarrow> SILValue option list
     \<Rightarrow> error + iid \<times> SILModule" where
  "createFoldedBranch E M BB v TrueBB n FalseBB Args =
     (case APInt_eq E v (APInt 1 0) of
        Inl e \<Rightarrow> Inl e
      | Inr isZero \<Rightarrow>
          if isZero then createBranch M BB FalseBB (drop n Args)
          else (case (if NDEBUG E then Inr True else APInt_eq E v (APInt 1 1)) of
                  Inl e \<Rightarrow> Inl e
                | Inr isOne \<Rightarrow>
                    if isOne then createBranch M BB TrueBB (take n Args)
                    else Inl AssertionFailed))"

definition constantFoldTerminator :: "env \<Rightarrow> SILModule \<Rightarrow> bid \<Rightarrow> error + bool \<times> SILModule" where
  "constantFoldTerminator E M BB =
     (case getTerminator M BB of
        Inl e \<Rightarrow> Inl e
      | Inr TI \<Rightarrow>
     (case getInst M TI of
        Inl e \<Rightarrow> Inl e
      | Inr CBI \<Rightarrow>
     (case kind CBI of
        CondBranchInst TrueBB n FalseBB \<Rightarrow>
          (case operands CBI of
             [] \<Rightarrow> Inl NullDeref
           | V # Args \<Rightarrow>
          (case V of
             None \<Rightarrow> Inl NullDeref
           | Some (BlockArg b a) \<Rightarrow> Inr (False, M)
           | Some (InstResult CondI) \<Rightarrow>
          (case getInst M CondI of
             Inl e \<Rightarrow> Inl e
           | Inr ConstCond \<Rightarrow>
          (case kind ConstCond of
             IntegerLiteralInst v \<Rightarrow>
               (case createFoldedBranch E M BB v TrueBB n FalseBB Args of
                  Inl e \<Rightarrow> Inl e
                | Inr (BI, M1) \<Rightarrow>
               (case eraseAndCleanupInst E M1 TI of
                  Inl e \<Rightarrow> Inl e
                | Inr (r, M2) \<Rightarrow> Inr (True, M2)))
           | _ \<Rightarrow> Inr (False, M)))))
      | _ \<Rightarrow> Inr (False, M))))"

section \<open>Truncating a block after a call to a no-return function\<close>

definition isCallToNoReturn :: "env \<Rightarrow> bool option \<Rightarrow> error + bool" where
  "isCallToNoReturn E ft =
     (case ft of
        Some nr \<Rightarrow> Inr nr
      | None \<Rightarrow> if NDEBUG E then Inr False else Inl AssertionFailed)"

text \<open>The \<open>while\<close> loop of lines 176-199 over the instructions of the block still to
  visit.\<close>

fun scanBlock ::
  "env \<Rightarrow> SILModule \<Rightarrow> iid list \<Rightarrow> bool \<Rightarrow> iid list \<Rightarrow> error + bool \<times> iid list \<times> SILModule" where
  "scanBlock E M [] FoundNoReturnCall ToBeDeleted = Inr (FoundNoReturnCall, ToBeDeleted, M)"
| "scanBlock E M (CurrentInst # rest) FoundNoReturnCall ToBeDeleted =
     (if FoundNoReturnCall
      then scanBlock E (M\<lparr>NumInstructionsRemoved := NumInstructionsRemoved M + 1\<rparr>) rest
             FoundNoReturnCall (List.insert CurrentInst ToBeDeleted)
      else (case getInst M CurrentInst of
              Inl e \<Rightarrow> Inl e
            | Inr x \<Rightarrow>
                (case kind x of
                   ApplyInst ft \<Rightarrow>
                     (case isCallToNoReturn E ft of
                        Inl e \<Rightarrow> Inl e
                      | Inr nr \<Rightarrow>
                          scanBlock E M rest (if nr then True else FoundNoReturnCall) ToBeDeleted)
                 | _ \<Rightarrow> scanBlock E M rest FoundNoReturnCall ToBeDeleted)))"

definition simplifyBlocksWithCallsToNoReturn ::
  "env \<Rightarrow> SILModule \<Rightarrow> bid \<Rightarrow> error + bool \<times> SILModule" where
  "simplifyBlocksWithCallsToNoReturn E M BB =
     (case getBlock M BB of
        Inl e \<Rightarrow> Inl e
      | Inr l \<Rightarrow>
          (case scanBlock E M l False [] of
             Inl e \<Rightarrow> Inl e
           | Inr (FoundNoReturnCall, ToBeDeleted, M1) \<Rightarrow>
               if \<not> FoundNoReturnCall then Inr (False, M1)
               else (case eraseAndCleanup E M1 ToBeDeleted of
                       Inl e \<Rightarrow> Inl e
                     | Inr (r, M2) \<Rightarrow>
                         (case createUnreachable M2 BB of
                            Inl e \<Rightarrow> Inl e
                          | Inr (UI, M3) \<Rightarrow> Inr (True, M3)))))"

section \<open>Removing unreachable blocks\<close>

text \<open>The \<open>for\<close> loop over the successors of the popped block (lines 227-230):
  \<open>Reachable.insert\<close> tells whether the block is new, and a new block is pushed.\<close>

fun visitSuccs :: "bid list \<Rightarrow> bid list \<Rightarrow> bid list \<Rightarrow> bid list \<times> bid list" where
  "visitSuccs [] Reachable Worklist = (Reachable, Worklist)"
| "visitSuccs (SI # rest) Reachable Worklist =
     (if SI \<notin> set Reachable then visitSuccs rest (SI # Reachable) (SI # Worklist)
      else visitSuccs rest Reachable Worklist)"

definition succUniverse :: "SILModule \<Rightarrow> bid set" where
  "succUniverse M = (\<Union>b \<in> {..<length (blocks M)}. case successors M b of Inl e \<Rightarrow> {} | Inr ss \<Rightarrow> set ss)"

lemma finite_succUniverse: "finite (succUniverse M)"
  by (auto simp: succUniverse_def split: sum.splits)

lemma successors_in_universe:
  "successors M b = Inr ss \<Longrightarrow> set ss \<subseteq> succUniverse M"
proof -
  assume a: "successors M b = Inr ss"
  then have "b < length (blocks M)"
    by (auto simp: successors_def getTerminator_def getBlock_def split: sum.splits if_splits)
  with a show ?thesis
    by (force simp: succUniverse_def)
qed

lemma visitSuccs_set:
  "visitSuccs ss R W = (R', W') \<Longrightarrow> set R' = set R \<union> set ss"
  by (induction ss arbitrary: R W) (auto split: if_splits)

lemma visitSuccs_same:
  "visitSuccs ss R W = (R', W') \<Longrightarrow> set ss \<subseteq> set R \<Longrightarrow> R' = R \<and> W' = W"
  by (induction ss arbitrary: R W) (auto split: if_splits)

lemma visitSuccs_measure:
  assumes "visitSuccs ss R W = (R', W')" and "set ss \<subseteq> U" and "finite U"
  shows "(R' = R \<and> W' = W) \<or> card (U - set R') < card (U - set R)"
proof (cases "set ss \<subseteq> set R")
  case True
  then show ?thesis using visitSuccs_same [OF assms(1)] by simp
next
  case False
  then obtain x where x: "x \<in> set ss" "x \<notin> set R" by auto
  have R': "set R' = set R \<union> set ss" by (rule visitSuccs_set [OF assms(1)])
  have "U - set R' \<subset> U - set R"
    using x assms(2) R' by auto
  then show ?thesis
    using assms(3) by (simp add: psubset_card_mono)
qed

text \<open>The \<open>do ... while (!Worklist.empty())\<close> loop of lines 225-231; it is entered with the
  entry block on the worklist.\<close>

function collectReachable :: "SILModule \<Rightarrow> bid list \<Rightarrow> bid list \<Rightarrow> error + bid list" where
  "collectReachable M Reachable [] = Inr Reachable"
| "collectReachable M Reachable (BB # Worklist) =
     (case successors M BB of
        Inl e \<Rightarrow> Inl e
      | Inr ss \<Rightarrow>
          (case visitSuccs ss Reachable Worklist of
             (Reachable', Worklist') \<Rightarrow> collectReachable M Reachable' Worklist'))"
  by pat_completeness auto
termination
  apply (relation "measures [\<lambda>(M, R, W). card (succUniverse M - set R), \<lambda>(M, R, W). length W]")
   apply simp
  subgoal for M Reachable BB Worklist ss x y
    using visitSuccs_measure [of ss Reachable Worklist x y "succUniverse M"]
      successors_in_universe [of M BB ss] finite_succUniverse [of M]
    by (cases "visitSuccs ss Reachable Worklist") auto
  done

text \<open>The loop of lines 239-246: the terminator of every unreachable block is erased.\<close>

fun eraseTerminators :: "env \<Rightarrow> SILModule \<Rightarrow> bid list \<Rightarrow> bid list \<Rightarrow> error + SILModule" where
  "eraseTerminators E M [] Reachable = Inr M"
| "eraseTerminators E M (BB # rest) Reachable =
     (if BB \<in> set Reachable then eraseTerminators E M rest Reachable
      else (case getTerminator M BB of
              Inl e \<Rightarrow> Inl e
            | Inr TI \<Rightarrow>
                (case eraseAndCleanupInst E M TI of
                   Inl e \<Rightarrow> Inl e
                 | Inr (r, M1) \<Rightarrow> eraseTerminators E M1 rest Reachable)))"

text \<open>The loop of lines 251-254: the instructions of the unreachable blocks.\<close>

fun collectInsts :: "SILModule \<Rightarrow> bid list \<Rightarrow> bid list \<Rightarrow> iid list \<Rightarrow> error + iid list" where
  "collectInsts M [] Reachable ToBeDeleted = Inr ToBeDeleted"
| "collectInsts M (BI # rest) Reachable ToBeDeleted =
     (if BI \<in> set Reachable then collectInsts M rest Reachable ToBeDeleted
      else (case getBlock M BI of
              Inl e \<Rightarrow> Inl e
            | Inr l \<Rightarrow> collectInsts M rest Reachable (fold List.insert l ToBeDeleted)))"

text \<open>The loop of lines 258-263: an unreachable block is unlinked from the function and
  destroyed, and counted.\<close>

fun eraseBlocks :: "SILModule \<Rightarrow> nat \<Rightarrow> bid list \<Rightarrow> bid list \<Rightarrow> SILModule" where
  "eraseBlocks M Fn [] Reachable = M"
| "eraseBlocks M Fn (I # rest) Reachable =
     (if I \<notin> set Reachable
      then eraseBlocks
             (M\<lparr>funcs := (funcs M)[Fn := removeAll I (funcs M ! Fn)],
                blocks := (blocks M)[I := None],
                NumBlocksRemoved := NumBlocksRemoved M + 1\<rparr>) Fn rest Reachable
      else eraseBlocks M Fn rest Reachable)"

text \<open>\<open>Fn\<close> is the position of the function in the module.\<close>

definition removeUnreachableBlocks :: "env \<Rightarrow> SILModule \<Rightarrow> nat \<Rightarrow> error + bool \<times> SILModule" where
  "removeUnreachableBlocks E M Fn =
     (if \<not> Fn < length (funcs M) then Inl NullDeref
      else if funcs M ! Fn = [] then Inr (False, M)
      else (case collectReachable M [hd (funcs M ! Fn)] [hd (funcs M ! Fn)] of
              Inl e \<Rightarrow> Inl e
            | Inr Reachable \<Rightarrow>
                if \<not> NDEBUG E \<and> \<not> length Reachable \<le> length (funcs M ! Fn)
                then Inl AssertionFailed
                else if length Reachable = length (funcs M ! Fn) then Inr (False, M)
                else (case eraseTerminators E M (funcs M ! Fn) Reachable of
                        Inl e \<Rightarrow> Inl e
                      | Inr M1 \<Rightarrow>
                          (case collectInsts M1 (funcs M1 ! Fn) Reachable [] of
                             Inl e \<Rightarrow> Inl e
                           | Inr ToBeDeleted \<Rightarrow>
                               (case eraseAndCleanup E M1 ToBeDeleted of
                                  Inl e \<Rightarrow> Inl e
                                | Inr (r, M2) \<Rightarrow>
                                    Inr (True, eraseBlocks M2 Fn (funcs M2 ! Fn) Reachable))))))"

section \<open>The driver\<close>

fun processBlocks :: "env \<Rightarrow> SILModule \<Rightarrow> bid list \<Rightarrow> error + SILModule" where
  "processBlocks E M [] = Inr M"
| "processBlocks E M (BB # rest) =
     (case constantFoldTerminator E M BB of
        Inl e \<Rightarrow> Inl e
      | Inr (folded, M1) \<Rightarrow>
          if folded then processBlocks E M1 rest
          else (case simplifyBlocksWithCallsToNoReturn E M1 BB of
                  Inl e \<Rightarrow> Inl e
                | Inr (simplified, M2) \<Rightarrow> processBlocks E M2 rest))"

fun processFunctions :: "env \<Rightarrow> SILModule \<Rightarrow> nat list \<Rightarrow> error + SILModule" where
  "processFunctions E M [] = Inr M"
| "processFunctions E M (Fn # rest) =
     (case processBlocks E M (funcs M ! Fn) of
        Inl e \<Rightarrow> Inl e
      | Inr M1 \<Rightarrow>
          (case removeUnreachableBlocks E M1 Fn of
             Inl e \<Rightarrow> Inl e
           | Inr (r, M2) \<Rightarrow> processFunctions E M2 rest))"

definition performSILDeadCodeElimination :: "env \<Rightarrow> SILModule \<Rightarrow> error + SILModule" where
  "performSILDeadCodeElimination E M = processFunctions E M [0..<length (funcs M)]"

section \<open>Example modules\<close>

text \<open>Assertions enabled; a \<open>DenseSet\<close> is iterated by increasing handle.\<close>

definition exEnv :: env where
  "exEnv = \<lparr>NDEBUG = False, DenseOrder = (\<lambda>S I. I)\<rparr>"

text \<open>One pure instruction without uses, in a block of its own.\<close>

definition exDead :: SILModule where
  "exDead =
     \<lparr>insts = [Some \<lparr>kind = OtherInst, operands = [], sideEffects = False\<rparr>],
      uses = (\<lambda>v. []),
      blocks = [Some [0]],
      funcs = [],
      NumBlocksRemoved = 0, NumInstructionsRemoved = 0\<rparr>"

text \<open>\<open>bb0: %0 = integer_literal 1 (one bit); cond_br %0, bb1, bb2\<close>, and \<open>bb1\<close>, \<open>bb2\<close>
  each a lone terminator without successors.\<close>

definition exFold :: SILModule where
  "exFold =
     \<lparr>insts = [Some \<lparr>kind = IntegerLiteralInst (APInt 1 1), operands = [], sideEffects = False\<rparr>,
               Some \<lparr>kind = CondBranchInst 1 0 2, operands = [Some (InstResult 0)],
                     sideEffects = False\<rparr>,
               Some \<lparr>kind = OtherTermInst [], operands = [], sideEffects = True\<rparr>,
               Some \<lparr>kind = OtherTermInst [], operands = [], sideEffects = True\<rparr>],
      uses = (\<lambda>v. [])(InstResult 0 := [(1, 0)]),
      blocks = [Some [0, 1], Some [2], Some [3]],
      funcs = [[0, 1, 2]],
      NumBlocksRemoved = 0, NumInstructionsRemoved = 0\<rparr>"

text \<open>\<open>bb0: apply @f() (no-return); return\<close>.\<close>

definition exNoReturn :: SILModule where
  "exNoReturn =
     \<lparr>insts = [Some \<lparr>kind = ApplyInst (Some True), operands = [], sideEffects = True\<rparr>,
               Some \<lparr>kind = OtherTermInst [], operands = [], sideEffects = True\<rparr>],
      uses = (\<lambda>v. []),
      blocks = [Some [0, 1]],
      funcs = [[0]],
      NumBlocksRemoved = 0, NumInstructionsRemoved = 0\<rparr>"

text \<open>\<open>bb0: apply %c() (callee type not a function type); return\<close>.\<close>

definition exUnresolved :: SILModule where
  "exUnresolved =
     \<lparr>insts = [Some \<lparr>kind = ApplyInst None, operands = [], sideEffects = True\<rparr>,
               Some \<lparr>kind = OtherTermInst [], operands = [], sideEffects = True\<rparr>],
      uses = (\<lambda>v. []),
      blocks = [Some [0, 1]],
      funcs = [[0]],
      NumBlocksRemoved = 0, NumInstructionsRemoved = 0\<rparr>"

text \<open>\<open>bb0: br bb1\<close>, \<open>bb1: return\<close>, and a block \<open>bb2: %2 = ...; return %2\<close> without
  predecessor.\<close>

definition exOrphan :: SILModule where
  "exOrphan =
     \<lparr>insts = [Some \<lparr>kind = BranchInst 1, operands = [], sideEffects = False\<rparr>,
               Some \<lparr>kind = OtherTermInst [], operands = [], sideEffects = True\<rparr>,
               Some \<lparr>kind = OtherInst, operands = [], sideEffects = False\<rparr>,
               Some \<lparr>kind = OtherTermInst [], operands = [Some (InstResult 2)],
                     sideEffects = True\<rparr>],
      uses = (\<lambda>v. [])(InstResult 2 := [(3, 0)]),
      blocks = [Some [0], Some [1], Some [2, 3]],
      funcs = [[0, 1, 2]],
      NumBlocksRemoved = 0, NumInstructionsRemoved = 0\<rparr>"

section \<open>What dropping and erasing keep\<close>


lemma Operand_drop_cases:
  assumes "Operand_drop M I k = Inr M'"
  obtains (null) x where "getInst M I = Inr x" "k < length (operands x)"
      "operands x ! k = None" "M' = M"
  | (some) x v where "getInst M I = Inr x" "k < length (operands x)"
      "operands x ! k = Some v"
      "M' = M\<lparr>insts := (insts M)[I := Some (x\<lparr>operands := (operands x)[k := None]\<rparr>)],
                uses := (uses M)(v := remove1 (I, k) (uses M v))\<rparr>"
  using assms
  by (auto simp: Operand_drop_def split: sum.splits if_splits option.splits)

lemma eraseFromParent_Inr:
  "eraseFromParent M I = Inr M' \<longleftrightarrow>
     isLive M I \<and> M' = M\<lparr>insts := (insts M)[I := None],
                           blocks := map (map_option (removeAll I)) (blocks M)\<rparr>"
  by (auto simp: eraseFromParent_def isLive_getInst split: sum.splits)

lemma getInst_upd:
  "getInst (M\<lparr>insts := (insts M)[I := Some z], uses := u\<rparr>) J =
     (if J = I \<and> I < length (insts M) then Inr z else getInst M J)"
  by (auto simp: getInst_def)

lemma getInst_erase:
  "getInst (M\<lparr>insts := (insts M)[I := None], blocks := b\<rparr>) J =
     (if J = I then Inl UseAfterErase else getInst M J)"
  by (auto simp: getInst_def)

definition allDropped :: "SILModule \<Rightarrow> iid \<Rightarrow> bool" where
  "allDropped M I = (\<forall>x. getInst M I = Inr x \<longrightarrow> (\<forall>v \<in> set (operands x). v = None))"

inductive step :: "iid set \<Rightarrow> SILModule \<Rightarrow> SILModule \<Rightarrow> bool" for T where
  drop: "getInst M I = Inr x \<Longrightarrow> \<not> isTermInst (kind x) \<or> I \<in> T \<Longrightarrow>
         Operand_drop M I k = Inr M' \<Longrightarrow> step T M M'"
| erase: "getInst M I = Inr x \<Longrightarrow> \<not> isTermInst (kind x) \<or> I \<in> T \<Longrightarrow>
         allDropped M I \<Longrightarrow> eraseFromParent M I = Inr M' \<Longrightarrow> step T M M'"

definition steps :: "iid set \<Rightarrow> SILModule \<Rightarrow> SILModule \<Rightarrow> bool" where
  "steps T = (step T)\<^sup>*\<^sup>*"

lemma steps_refl: "steps T M M" by (simp add: steps_def)
lemma steps_trans: "steps T M M1 \<Longrightarrow> steps T M1 M2 \<Longrightarrow> steps T M M2"
  by (simp add: steps_def)
lemma steps_step: "step T M M' \<Longrightarrow> steps T M M'"
  by (simp add: steps_def)
lemma step_mono: "step T M M' \<Longrightarrow> T \<subseteq> T' \<Longrightarrow> step T' M M'"
  by (induction rule: step.induct) (auto intro: step.intros)
lemma steps_mono: "steps T M M' \<Longrightarrow> T \<subseteq> T' \<Longrightarrow> steps T' M M'"
  unfolding steps_def
  by (induction rule: rtranclp_induct) (auto intro: step_mono rtranclp.rtrancl_into_rtrancl)

lemma steps_induct [consumes 1, case_names base step]:
  assumes "steps T M M'" and "P M" and "\<And>M1 M2. steps T M M1 \<Longrightarrow> step T M1 M2 \<Longrightarrow> P M1 \<Longrightarrow> P M2"
  shows "P M'"
  using assms unfolding steps_def by (induction rule: rtranclp_induct) auto

lemma step_fields:
  assumes "step T M M'"
  shows "length (insts M') = length (insts M)" and "funcs M' = funcs M"
    and "NumBlocksRemoved M' = NumBlocksRemoved M"
    and "NumInstructionsRemoved M' = NumInstructionsRemoved M"
    and "length (blocks M') = length (blocks M)"
  using assms
  by (induction rule: step.induct; auto simp: eraseFromParent_Inr elim!: Operand_drop_cases)+

lemma steps_fields:
  assumes "steps T M M'"
  shows "length (insts M') = length (insts M)" and "funcs M' = funcs M"
    and "NumBlocksRemoved M' = NumBlocksRemoved M"
    and "NumInstructionsRemoved M' = NumInstructionsRemoved M"
    and "length (blocks M') = length (blocks M)"
  using assms
  by (induction rule: steps_induct; simp add: step_fields)+

lemma step_isLive: "step T M M' \<Longrightarrow> isLive M' I \<Longrightarrow> isLive M I"
  by (induction rule: step.induct)
     (auto simp: Operand_drop_isLive eraseFromParent_isLive)

lemma steps_isLive: "steps T M M' \<Longrightarrow> isLive M' I \<Longrightarrow> isLive M I"
  by (induction rule: steps_induct) (auto dest: step_isLive)

lemma step_uses: "step T M M' \<Longrightarrow> set (uses M' v) \<subseteq> set (uses M v)"
  by (induction rule: step.induct)
     (auto simp: eraseFromParent_Inr elim!: Operand_drop_cases split: if_splits
        dest: set_remove1_subset [THEN subsetD])

lemma steps_uses: "steps T M M' \<Longrightarrow> set (uses M' v) \<subseteq> set (uses M v)"
  by (induction rule: steps_induct) (auto dest: step_uses)

lemma step_uses_distinct: "step T M M' \<Longrightarrow> distinct (uses M v) \<Longrightarrow> distinct (uses M' v)"
  by (induction rule: step.induct)
     (auto simp: eraseFromParent_Inr elim!: Operand_drop_cases)

lemma step_blocks:
  assumes "step T M M'"
  shows "blocks M' = map (map_option (filter (\<lambda>I. isLive M I \<longrightarrow> isLive M' I))) (blocks M)"
  using assms
proof (induction rule: step.induct)
  case (drop M I x k M')
  have "isLive M' J = isLive M J" for J
    using Operand_drop_isLive [OF drop(3)] .
  moreover have "blocks M' = blocks M"
    using drop(3) by (auto elim!: Operand_drop_cases)
  ultimately show ?case
    by (simp add: option.map_ident map_idI cong: map_cong)
next
  case (erase M I x M')
  have live: "isLive M' J = (isLive M J \<and> J \<noteq> I)" for J
    using eraseFromParent_isLive [OF erase(4)] .
  have I: "isLive M I" using erase(1) by (auto simp: isLive_getInst)
  have f: "filter (\<lambda>J. isLive M J \<longrightarrow> isLive M' J) l = removeAll I l" for l
    by (induction l) (auto simp: live I)
  have b: "blocks M' = map (map_option (removeAll I)) (blocks M)"
    using erase(4) by (simp add: eraseFromParent_Inr)
  show ?case unfolding b f ..
qed

lemma steps_blocks:
  assumes "steps T M M'"
  shows "blocks M' = map (map_option (filter (\<lambda>I. isLive M I \<longrightarrow> isLive M' I))) (blocks M)"
  using assms
proof (induction rule: steps_induct)
  case base
  show ?case by (simp add: option.map_ident map_idI cong: map_cong)
next
  case (step M1 M2)
  have f: "filter (\<lambda>I. isLive M1 I \<longrightarrow> isLive M2 I) (filter (\<lambda>I. isLive M I \<longrightarrow> isLive M1 I) l) =
           filter (\<lambda>I. isLive M I \<longrightarrow> isLive M2 I) l" for l
    using steps_isLive [OF step(1)] step_isLive [OF step(2)]
    by (induction l) auto
  have g: "map_option (filter (\<lambda>I. isLive M1 I \<longrightarrow> isLive M2 I)) \<circ>
             map_option (filter (\<lambda>I. isLive M I \<longrightarrow> isLive M1 I)) =
           map_option (filter (\<lambda>I. isLive M I \<longrightarrow> isLive M2 I))"
  proof (rule ext)
    fix ol :: "iid list option"
    show "(map_option (filter (\<lambda>I. isLive M1 I \<longrightarrow> isLive M2 I)) \<circ>
             map_option (filter (\<lambda>I. isLive M I \<longrightarrow> isLive M1 I))) ol =
           map_option (filter (\<lambda>I. isLive M I \<longrightarrow> isLive M2 I)) ol"
      by (cases ol) (simp_all only: comp_apply option.map f)
  qed
  show ?case
    unfolding step_blocks [OF step(2)] step(3) by (simp only: map_map g)
qed

lemma step_getInst:
  assumes "step T M M'" and "getInst M' J = Inr y'"
  shows "\<exists>y. getInst M J = Inr y \<and> kind y' = kind y \<and> sideEffects y' = sideEffects y \<and>
             length (operands y') = length (operands y) \<and>
             (\<forall>k. operands y' ! k = operands y ! k \<or> operands y' ! k = None)"
  using assms
proof (induction rule: step.induct)
  case (drop M I x k M')
  from drop(3) show ?case
  proof (cases rule: Operand_drop_cases)
    case (null x)
    then show ?thesis using drop(4) by simp
  next
    case (some z v)
    then show ?thesis using drop(4)
      by (cases "J = I") (auto simp: getInst_upd nth_list_update split: if_splits)
  qed
next
  case (erase M I x M')
  then show ?case
    by (auto simp: eraseFromParent_Inr getInst_erase split: if_splits)
qed

lemma steps_getInst:
  assumes "steps T M M'" and "getInst M' J = Inr y'"
  shows "\<exists>y. getInst M J = Inr y \<and> kind y' = kind y \<and> sideEffects y' = sideEffects y \<and>
             length (operands y') = length (operands y) \<and>
             (\<forall>k. operands y' ! k = operands y ! k \<or> operands y' ! k = None)"
  using assms
proof (induction arbitrary: y' rule: steps_induct)
  case base
  then show ?case by simp
next
  case (step M1 M2)
  from step_getInst [OF step(2) step(4)] obtain y1 where y1: "getInst M1 J = Inr y1"
    "kind y' = kind y1" "sideEffects y' = sideEffects y1"
    "length (operands y') = length (operands y1)"
    "\<And>k. operands y' ! k = operands y1 ! k \<or> operands y' ! k = None"
    by blast
  from step(3) [OF y1(1)] obtain y where y: "getInst M J = Inr y"
    "kind y1 = kind y" "sideEffects y1 = sideEffects y"
    "length (operands y1) = length (operands y)"
    "\<And>k. operands y1 ! k = operands y ! k \<or> operands y1 ! k = None"
    by blast
  have "operands y' ! k = operands y ! k \<or> operands y' ! k = None" for k
    using y1(5) [of k] y(5) [of k] by auto
  then show ?case using y y1 by auto
qed

lemma step_untouched:
  assumes "step T M M'" and "getInst M J = Inr y" and "isTermInst (kind y)" and "J \<notin> T"
  shows "getInst M' J = Inr y"
  using assms
proof (induction rule: step.induct)
  case (drop M I x k M')
  then have "J \<noteq> I" by auto
  with drop show ?case
    by (auto simp: getInst_upd elim!: Operand_drop_cases)
next
  case (erase M I x M')
  then have "J \<noteq> I" by auto
  with erase show ?case
    by (auto simp: eraseFromParent_Inr getInst_erase)
qed

lemma steps_untouched:
  assumes "steps T M M'" and "getInst M J = Inr y" and "isTermInst (kind y)" and "J \<notin> T"
  shows "getInst M' J = Inr y"
  using assms by (induction rule: steps_induct) (auto intro: step_untouched)

lemma step_allDropped: "step T M M' \<Longrightarrow> allDropped M J \<Longrightarrow> allDropped M' J"
  unfolding allDropped_def
  by (metis step_getInst in_set_conv_nth)

lemma steps_allDropped: "steps T M M' \<Longrightarrow> allDropped M J \<Longrightarrow> allDropped M' J"
  by (induction rule: steps_induct) (auto intro: step_allDropped)

lemma steps_slot_None:
  assumes "steps T M M'" and "getInst M I = Inr x" and "operands x ! k = None"
    and "getInst M' I = Inr x'"
  shows "operands x' ! k = None"
proof -
  from steps_getInst [OF assms(1,4)] obtain y where y: "getInst M I = Inr y"
    and yk: "\<And>j. operands x' ! j = operands y ! j \<or> operands x' ! j = None" by blast
  have "y = x" using y assms(2) by simp
  with yk [of k] assms(3) show ?thesis by auto
qed

definition mayTouch :: "iid set \<Rightarrow> SILModule \<Rightarrow> iid \<Rightarrow> bool" where
  "mayTouch T M I = (\<forall>x. getInst M I = Inr x \<longrightarrow> \<not> isTermInst (kind x) \<or> I \<in> T)"

lemma mayTouch_in: "I \<in> T \<Longrightarrow> mayTouch T M I"
  by (simp add: mayTouch_def)

lemma steps_mayTouch: "steps T' M M' \<Longrightarrow> mayTouch T M I \<Longrightarrow> mayTouch T M' I"
  unfolding mayTouch_def by (metis steps_getInst)

lemma Operand_drop_step:
  assumes "Operand_drop M I k = Inr M1" and "mayTouch T M I"
  shows "step T M M1"
proof -
  from assms(1) obtain x where x: "getInst M I = Inr x"
    by (auto simp: Operand_drop_def split: sum.splits)
  with assms(2) have "\<not> isTermInst (kind x) \<or> I \<in> T" by (simp add: mayTouch_def)
  then show ?thesis by (rule step.drop [OF x _ assms(1)])
qed

lemma dropOperands_Cons_Inr:
  "dropOperands M I (k # ks) D = Inr (M', D') \<Longrightarrow>
     \<exists>OpVal M1 D1. Operand_get M I k = Inr OpVal \<and> Operand_drop M I k = Inr M1 \<and>
        dropOperands M1 I ks D1 = Inr (M', D') \<and>
        (D1 = D \<or> (\<exists>J. D1 = J # D \<and> isInstructionTriviallyDead M1 J = Inr True \<and>
                        OpVal = Some (InstResult J)))"
  by (auto split: sum.splits option.splits SILValue.splits if_splits)

lemma Operand_drop_slot:
  assumes "Operand_drop M I k = Inr M1"
  shows "\<exists>x1. getInst M1 I = Inr x1 \<and> operands x1 ! k = None"
  using assms
  by (auto simp: getInst_upd getInst_Inr_iff elim!: Operand_drop_cases)

lemma isInstructionTriviallyDead_True:
  "isInstructionTriviallyDead M J = Inr True \<longleftrightarrow>
     (\<exists>y. getInst M J = Inr y \<and> use_empty M J \<and> \<not> isTermInst (kind y) \<and> \<not> sideEffects y)"
  by (auto simp: isInstructionTriviallyDead_def mayHaveSideEffects_def split: sum.splits)

lemma isInstructionTriviallyDead_mayTouch:
  "isInstructionTriviallyDead M J = Inr True \<Longrightarrow> mayTouch T M J"
  by (auto simp: isInstructionTriviallyDead_True mayTouch_def)

lemma dropOperands_steps:
  assumes "dropOperands M I ks D = Inr (M', D')" and "mayTouch T M I"
    and "\<forall>J \<in> set D. mayTouch T M J"
  shows "steps T M M' \<and> (\<forall>J \<in> set D'. mayTouch T M' J)"
  using assms
proof (induction ks arbitrary: M D)
  case Nil
  then show ?case by (simp add: steps_refl)
next
  case (Cons k ks)
  from dropOperands_Cons_Inr [OF Cons.prems(1)] obtain OpVal M1 D1
    where g: "Operand_get M I k = Inr OpVal"
    and d: "Operand_drop M I k = Inr M1"
    and r: "dropOperands M1 I ks D1 = Inr (M', D')"
    and D1': "D1 = D \<or> (\<exists>J. D1 = J # D \<and> isInstructionTriviallyDead M1 J = Inr True)"
    by blast
  have st: "steps T M M1" using Operand_drop_step [OF d Cons.prems(2)] by (rule steps_step)
  have mI: "mayTouch T M1 I" using steps_mayTouch [OF st Cons.prems(2)] .
  have mD: "\<forall>J \<in> set D. mayTouch T M1 J" using steps_mayTouch [OF st] Cons.prems(3) by blast
  have D1: "\<forall>J \<in> set D1. mayTouch T M1 J"
    using mD D1' by (auto intro: isInstructionTriviallyDead_mayTouch)
  from Cons.IH [OF r mI D1] st show ?case
    by (auto intro: steps_trans)
qed

lemma dropOperands_dropped:
  assumes "dropOperands M I ks D = Inr (M', D')" and "mayTouch T M I"
    and "\<forall>J \<in> set D. mayTouch T M J" and "isLive M I"
  shows "\<exists>x'. getInst M' I = Inr x' \<and> (\<forall>k \<in> set ks. operands x' ! k = None)"
  using assms
proof (induction ks arbitrary: M D)
  case Nil
  then show ?case by (simp add: isLive_getInst)
next
  case (Cons k ks)
  from dropOperands_Cons_Inr [OF Cons.prems(1)] obtain OpVal M1 D1
    where g: "Operand_get M I k = Inr OpVal"
    and d: "Operand_drop M I k = Inr M1"
    and r: "dropOperands M1 I ks D1 = Inr (M', D')"
    and D1': "D1 = D \<or> (\<exists>J. D1 = J # D \<and> isInstructionTriviallyDead M1 J = Inr True)"
    by blast
  have st: "steps T M M1" using Operand_drop_step [OF d Cons.prems(2)] by (rule steps_step)
  have mI: "mayTouch T M1 I" using steps_mayTouch [OF st Cons.prems(2)] .
  have mD: "\<forall>J \<in> set D. mayTouch T M1 J" using steps_mayTouch [OF st] Cons.prems(3) by blast
  have lI: "isLive M1 I" using Operand_drop_isLive [OF d] Cons.prems(4) by simp
  have D1: "\<forall>J \<in> set D1. mayTouch T M1 J"
    using mD D1' by (auto intro: isInstructionTriviallyDead_mayTouch)
  from Cons.IH [OF r mI D1 lI] obtain x' where x': "getInst M' I = Inr x'"
    "\<forall>k \<in> set ks. operands x' ! k = None" by blast
  from Operand_drop_slot [OF d] obtain x1 where x1: "getInst M1 I = Inr x1" "operands x1 ! k = None"
    by blast
  from dropOperands_steps [OF r mI D1] have "steps T M1 M'" by simp
  from steps_slot_None [OF this x1 x'(1)] have "operands x' ! k = None" .
  with x' show ?case by auto
qed

lemma allDropped_upt:
  assumes "getInst M I = Inr x" and "\<forall>k \<in> set [0..<length (operands x)]. operands x ! k = None"
  shows "allDropped M I"
  using assms by (auto simp: allDropped_def in_set_conv_nth)

lemma deleteInst_steps:
  assumes "deleteInst M I D = Inr (M', D')" and "mayTouch T M I"
    and "\<forall>J \<in> set D. mayTouch T M J"
  shows "steps T M M' \<and> (\<forall>J \<in> set D'. mayTouch T M' J) \<and> \<not> isLive M' I"
proof -
  from assms(1) obtain x M1 where x: "getInst M I = Inr x"
    and d: "dropOperands M I [0..<length (operands x)] D = Inr (M1, D')"
    and e: "eraseFromParent M1 I = Inr M'"
    by (auto simp: deleteInst_def split: sum.splits)
  have lI: "isLive M I" using x by (auto simp: isLive_getInst)
  from dropOperands_steps [OF d assms(2,3)] have st: "steps T M M1"
    and D': "\<forall>J \<in> set D'. mayTouch T M1 J" by auto
  from dropOperands_dropped [OF d assms(2,3) lI] obtain x1 where x1: "getInst M1 I = Inr x1"
    "\<forall>k \<in> set [0..<length (operands x)]. operands x1 ! k = None" by blast
  from steps_getInst [OF st x1(1)] x have "length (operands x1) = length (operands x)" by auto
  with x1 have ad: "allDropped M1 I" by (auto intro: allDropped_upt)
  have "mayTouch T M1 I" using steps_mayTouch [OF st assms(2)] .
  with x1(1) have "step T M1 M'"
    by (auto simp: mayTouch_def intro: step.erase [OF x1(1) _ ad e])
  then have st2: "steps T M1 M'" by (rule steps_step)
  show ?thesis
    using steps_trans [OF st st2] steps_mayTouch [OF st2] D'
      eraseFromParent_isLive [OF e, of I] by auto
qed

lemma deleteLoop_steps:
  assumes "deleteLoop M D = Inr M'" and "\<forall>J \<in> set D. mayTouch T M J"
  shows "steps T M M'"
  using assms
proof (induction M D rule: deleteLoop.induct)
  case (1 M)
  then show ?case by (simp add: steps_refl)
next
  case (2 M I DeadInsts)
  from "2.prems"(1) obtain M2 D2 where di: "deleteInst M I DeadInsts = Inr (M2, D2)"
    and r: "deleteLoop M2 D2 = Inr M'"
    by (auto split: sum.splits)
  from deleteInst_steps [OF di, of T] "2.prems"(2)
  have st: "steps T M M2" and D2: "\<forall>J \<in> set D2. mayTouch T M2 J" by auto
  from "2.IH" [OF di refl r D2] st show ?case
    by (auto intro: steps_trans)
qed

lemma recursivelyDelete_steps:
  assumes "recursivelyDeleteTriviallyDeadInstructions M Iopt = Inr (r, M')"
  shows "steps T M M'"
proof (cases "r")
  case False
  with assms have "M' = M"
    by (auto simp: recursivelyDeleteTriviallyDeadInstructions_def
        split: option.splits sum.splits if_splits)
  then show ?thesis by (simp add: steps_refl)
next
  case True
  with assms obtain I where I: "isInstructionTriviallyDead M I = Inr True"
    and l: "deleteLoop M [I] = Inr M'"
    by (auto simp: recursivelyDeleteTriviallyDeadInstructions_def
        split: option.splits sum.splits if_splits)
  have "\<forall>J \<in> set [I]. mayTouch T M J"
    using isInstructionTriviallyDead_mayTouch [OF I] by simp
  from deleteLoop_steps [OF l this] show ?thesis .
qed

lemma dropAll_steps:
  assumes "dropAll M I ks = Inr M'" and "mayTouch T M I"
  shows "steps T M M'"
  using assms
proof (induction ks arbitrary: M)
  case Nil
  then show ?case by (simp add: steps_refl)
next
  case (Cons k ks)
  from Cons.prems(1) obtain M1 where d: "Operand_drop M I k = Inr M1"
    and r: "dropAll M1 I ks = Inr M'"
    by (auto split: sum.splits)
  have st: "steps T M M1" using Operand_drop_step [OF d Cons.prems(2)] by (rule steps_step)
  from Cons.IH [OF r steps_mayTouch [OF st Cons.prems(2)]] st show ?case
    by (auto intro: steps_trans)
qed

lemma dropAll_dropped:
  assumes "dropAll M I ks = Inr M'" and "mayTouch T M I" and "isLive M I"
  shows "\<exists>x'. getInst M' I = Inr x' \<and> (\<forall>k \<in> set ks. operands x' ! k = None)"
  using assms
proof (induction ks arbitrary: M)
  case Nil
  then show ?case by (simp add: isLive_getInst)
next
  case (Cons k ks)
  from Cons.prems(1) obtain M1 where d: "Operand_drop M I k = Inr M1"
    and r: "dropAll M1 I ks = Inr M'"
    by (auto split: sum.splits)
  have st: "steps T M M1" using Operand_drop_step [OF d Cons.prems(2)] by (rule steps_step)
  have mI: "mayTouch T M1 I" using steps_mayTouch [OF st Cons.prems(2)] .
  have lI: "isLive M1 I" using Operand_drop_isLive [OF d] Cons.prems(3) by simp
  from Cons.IH [OF r mI lI] obtain x' where x': "getInst M' I = Inr x'"
    "\<forall>k \<in> set ks. operands x' ! k = None" by blast
  from Operand_drop_slot [OF d] obtain x1 where x1: "getInst M1 I = Inr x1" "operands x1 ! k = None"
    by blast
  from steps_slot_None [OF dropAll_steps [OF r mI] x1 x'(1)] x' show ?case by auto
qed

lemma dropAllReferences_steps:
  assumes "dropAllReferences M I = Inr M'" and "mayTouch T M I"
  shows "steps T M M'" and "allDropped M' I"
proof -
  from assms(1) obtain x where x: "getInst M I = Inr x"
    and d: "dropAll M I [0..<length (operands x)] = Inr M'"
    by (auto simp: dropAllReferences_def split: sum.splits)
  show st: "steps T M M'" by (rule dropAll_steps [OF d assms(2)])
  have "isLive M I" using x by (auto simp: isLive_getInst)
  from dropAll_dropped [OF d assms(2) this] obtain x' where x': "getInst M' I = Inr x'"
    "\<forall>k \<in> set [0..<length (operands x)]. operands x' ! k = None" by blast
  from steps_getInst [OF st x'(1)] x have "length (operands x') = length (operands x)" by auto
  with x' show "allDropped M' I" by (auto intro: allDropped_upt)
qed

lemma dropReferences_steps:
  assumes "dropReferences M ToBeDeleted rest PD = Inr (M', PD')" and "set rest \<subseteq> T"
  shows "steps T M M' \<and> (\<forall>I \<in> set rest. allDropped M' I)"
  using assms
proof (induction rest arbitrary: M PD)
  case Nil
  then show ?case by (simp add: steps_refl)
next
  case (Cons DI rest)
  from Cons.prems(1) obtain x M1 where x: "getInst M DI = Inr x"
    and d: "dropAllReferences M DI = Inr M1"
    and r: "dropReferences M1 ToBeDeleted rest (collectPossiblyDead ToBeDeleted (operands x) PD)
            = Inr (M', PD')"
    by (auto split: sum.splits)
  have m: "mayTouch T M DI" using Cons.prems(2) by (auto intro: mayTouch_in)
  note st = dropAllReferences_steps [OF d m]
  from Cons.IH [OF r] Cons.prems(2) have st2: "steps T M1 M'"
    and ad: "\<forall>I \<in> set rest. allDropped M' I" by auto
  show ?case
    using steps_trans [OF st(1) st2] steps_allDropped [OF st2 st(2)] ad by auto
qed

lemma deletePossiblyDead_steps:
  assumes "deletePossiblyDead M l AC = Inr (r, M')"
  shows "steps T M M'"
  using assms
proof (induction l arbitrary: M AC)
  case Nil
  then show ?case by (simp add: steps_refl)
next
  case (Cons I l)
  from Cons.prems obtain r1 M1 where
    d: "recursivelyDeleteTriviallyDeadInstructions M (Some I) = Inr (r1, M1)"
    and r: "deletePossiblyDead M1 l (AC \<and> r1) = Inr (r, M')"
    by (auto split: sum.splits)
  from recursivelyDelete_steps [OF d] Cons.IH [OF r] show ?case
    by (auto intro: steps_trans)
qed

lemma eraseFromParent_step:
  assumes "eraseFromParent M I = Inr M'" and "mayTouch T M I" and "allDropped M I"
  shows "step T M M'"
proof -
  from assms(1) obtain x where x: "getInst M I = Inr x"
    by (auto simp: eraseFromParent_def split: sum.splits)
  with assms(2) have "\<not> isTermInst (kind x) \<or> I \<in> T" by (simp add: mayTouch_def)
  then show ?thesis by (rule step.erase [OF x _ assms(3,1)])
qed

lemma eraseAll_steps:
  assumes "eraseAll M l = Inr M'" and "set l \<subseteq> T" and "\<forall>I \<in> set l. allDropped M I"
  shows "steps T M M'"
  using assms
proof (induction l arbitrary: M)
  case Nil
  then show ?case by (simp add: steps_refl)
next
  case (Cons I l)
  from Cons.prems(1) obtain M1 where e: "eraseFromParent M I = Inr M1"
    and r: "eraseAll M1 l = Inr M'"
    by (auto split: sum.splits)
  have "step T M M1"
    using eraseFromParent_step [OF e] Cons.prems(2,3) by (auto intro: mayTouch_in)
  then have st: "steps T M M1" by (rule steps_step)
  have "\<forall>I \<in> set l. allDropped M1 I"
    using steps_allDropped [OF st] Cons.prems(3) by auto
  from Cons.IH [OF r _ this] Cons.prems(2) st show ?case
    by (auto intro: steps_trans)
qed

lemma set_DenseSet_iter [simp]: "set (DenseSet_iter E S) = set S"
  by (simp add: DenseSet_iter_def)

lemma eraseAndCleanup_steps:
  assumes "eraseAndCleanup E M ToBeDeleted = Inr (r, M')"
  shows "steps (set ToBeDeleted) M M'"
proof -
  from assms obtain M1 PD M2 where
    a: "dropReferences M ToBeDeleted (DenseSet_iter E ToBeDeleted) [] = Inr (M1, PD)"
    and b: "deletePossiblyDead M1 (DenseSet_iter E PD) False = Inr (r, M2)"
    and c: "eraseAll M2 (DenseSet_iter E ToBeDeleted) = Inr M'"
    by (auto simp: eraseAndCleanup_def split: sum.splits)
  let ?T = "set ToBeDeleted"
  from dropReferences_steps [OF a, of ?T] have s1: "steps ?T M M1"
    and ad: "\<forall>I \<in> ?T. allDropped M1 I" by auto
  have s2: "steps ?T M1 M2" by (rule deletePossiblyDead_steps [OF b])
  have "\<forall>I \<in> set (DenseSet_iter E ToBeDeleted). allDropped M2 I"
    using steps_allDropped [OF s2] ad by auto
  from eraseAll_steps [OF c _ this, of ?T] have s3: "steps ?T M2 M'" by simp
  show ?thesis using s1 s2 s3 by (blast intro: steps_trans)
qed

section \<open>Def-use consistency\<close>

definition valueErased :: "SILModule \<Rightarrow> SILValue \<Rightarrow> bool" where
  "valueErased M v =
     (case v of
        InstResult I \<Rightarrow> I < length (insts M) \<and> insts M ! I = None
      | BlockArg b a \<Rightarrow> b < length (blocks M) \<and> blocks M ! b = None)"

definition operandRefs :: "SILModule \<Rightarrow> SILValue \<Rightarrow> (iid \<times> nat) set" where
  "operandRefs M v =
     {(I, k). \<exists>x. getInst M I = Inr x \<and> k < length (operands x) \<and> operands x ! k = Some v}"

definition defUseConsistent :: "SILModule \<Rightarrow> bool" where
  "defUseConsistent M =
     (\<forall>v. \<not> valueErased M v \<longrightarrow> set (uses M v) = operandRefs M v \<and> distinct (uses M v))"

lemma valueErased_InstResult:
  "valueErased M (InstResult I) = (I < length (insts M) \<and> \<not> isLive M I)"
  by (auto simp: valueErased_def isLive_def)

lemma step_valueErased:
  assumes "step T M M'" and "valueErased M v"
  shows "valueErased M' v"
proof (cases v)
  case (InstResult I)
  then show ?thesis
    using assms step_isLive [OF assms(1), of I] step_fields(1) [OF assms(1)]
    by (auto simp: valueErased_InstResult)
next
  case (BlockArg b a)
  then show ?thesis
    using assms(2) step_blocks [OF assms(1)]
    by (auto simp: valueErased_def)
qed

lemma operandRefs_drop:
  assumes "getInst M I = Inr x" and "k < length (operands x)"
  shows "operandRefs (M\<lparr>insts := (insts M)[I := Some (x\<lparr>operands := (operands x)[k := None]\<rparr>)],
                        uses := u\<rparr>) w = operandRefs M w - {(I, k)}"
  using assms
  by (auto simp: operandRefs_def getInst_upd nth_list_update getInst_Inr_iff split: if_splits)

lemma operandRefs_erase:
  assumes "allDropped M I"
  shows "operandRefs (M\<lparr>insts := (insts M)[I := None], blocks := b\<rparr>) w = operandRefs M w"
proof -
  have "operands x ! k \<noteq> Some w" if "getInst M I = Inr x" "k < length (operands x)" for x k
    using assms that unfolding allDropped_def by (metis nth_mem option.distinct(1))
  then show ?thesis
    by (auto simp: operandRefs_def getInst_erase split: if_splits)
qed

lemma step_defUse:
  assumes "step T M M'" and "defUseConsistent M"
  shows "defUseConsistent M'"
  unfolding defUseConsistent_def
proof (intro allI impI)
  fix w assume w': "\<not> valueErased M' w"
  then have w: "\<not> valueErased M w" using step_valueErased [OF assms(1)] by blast
  with assms(2) have inv: "set (uses M w) = operandRefs M w" "distinct (uses M w)"
    by (auto simp: defUseConsistent_def)
  from assms(1) show "set (uses M' w) = operandRefs M' w \<and> distinct (uses M' w)"
  proof (cases rule: step.cases)
    case (drop I x k)
    from drop(3) show ?thesis
    proof (cases rule: Operand_drop_cases)
      case (null y)
      then show ?thesis using inv by simp
    next
      case (some y v)
      have refs: "operandRefs M' w = operandRefs M w - {(I, k)}"
        unfolding some(4) by (rule operandRefs_drop [OF some(1,2)])
      show ?thesis
      proof (cases "w = v")
        case True
        then show ?thesis using inv refs by (simp add: some(4))
      next
        case False
        then have "(I, k) \<notin> operandRefs M w"
          using some(1,3) by (auto simp: operandRefs_def)
        then show ?thesis using inv refs False by (simp add: some(4))
      qed
    qed
  next
    case (erase I x)
    then have M': "M' = M\<lparr>insts := (insts M)[I := None],
                           blocks := map (map_option (removeAll I)) (blocks M)\<rparr>"
      by (simp add: eraseFromParent_Inr)
    show ?thesis
      using inv operandRefs_erase [OF erase(3)] by (simp add: M')
  qed
qed

lemma steps_defUse: "steps T M M' \<Longrightarrow> defUseConsistent M \<Longrightarrow> defUseConsistent M'"
  by (induction rule: steps_induct) (auto intro: step_defUse)

lemma addUses_index_split:
  "{(n::nat, k + j) | j. j < length (v # vs) \<and> (v # vs) ! j = w} =
        (if v = w then {(n, k)} else {}) \<union> {(n, Suc k + j) | j. j < length vs \<and> vs ! j = w}"
  (is "?L = ?R")
proof (rule set_eqI)
  fix p
  show "p \<in> ?L \<longleftrightarrow> p \<in> ?R"
  proof
    assume "p \<in> ?L"
    then obtain j where j: "p = (n, k + j)" "j < length (v # vs)" "(v # vs) ! j = w" by blast
    show "p \<in> ?R"
    proof (cases j)
      case 0
      with j show ?thesis by simp
    next
      case (Suc m)
      with j have "p = (n, Suc k + m)" "m < length vs" "vs ! m = w" by simp_all
      then show ?thesis by blast
    qed
  next
    assume "p \<in> ?R"
    then consider "v = w" "p = (n, k)" | m where "p = (n, Suc k + m)" "m < length vs" "vs ! m = w"
      by (auto split: if_splits)
    then show "p \<in> ?L"
    proof cases
      case 1
      then have "p = (n, k + 0) \<and> 0 < length (v # vs) \<and> (v # vs) ! 0 = w" by simp
      then show ?thesis by blast
    next
      case 2
      then have "p = (n, k + Suc m) \<and> Suc m < length (v # vs) \<and> (v # vs) ! Suc m = w" by simp
      then show ?thesis by blast
    qed
  qed
qed

lemma addUses_set:
  "set (addUses n k vs U w) = set (U w) \<union> {(n, k + j) | j. j < length vs \<and> vs ! j = w}"
proof (induction vs arbitrary: k U)
  case Nil
  then show ?case by simp
next
  case (Cons v vs)
  show ?case
    unfolding addUses_index_split addUses.simps Cons.IH by auto
qed

lemma addUses_distinct:
  "distinct (U w) \<Longrightarrow> \<forall>j \<ge> k. (n, j) \<notin> set (U w) \<Longrightarrow> distinct (addUses n k vs U w)"
proof (induction vs arbitrary: k U)
  case Nil
  then show ?case by simp
next
  case (Cons v vs)
  have "distinct (addUses n (Suc k) vs (U(v := (n, k) # U v)) w)"
    using Cons.prems by (intro Cons.IH) auto
  then show ?case by simp
qed

lemma insertAtEnd_Inr:
  "insertAtEnd M BB x = Inr (n, M1) \<longleftrightarrow>
     (\<exists>l. getBlock M BB = Inr l \<and> n = length (insts M) \<and>
          M1 = M\<lparr>insts := insts M @ [Some x],
                  blocks := (blocks M)[BB := Some (l @ [length (insts M)])]\<rparr>)"
  by (auto simp: insertAtEnd_def split: sum.splits)

lemma getBlock_Inr_iff:
  "getBlock M BB = Inr l \<longleftrightarrow> BB < length (blocks M) \<and> blocks M ! BB = Some l"
  by (simp add: getBlock_def split: option.splits)

lemma getInst_insertAtEnd:
  "getInst (M\<lparr>insts := insts M @ [Some x], blocks := b\<rparr>) J =
     (if J = length (insts M) then Inr x else getInst M J)"
  by (auto simp: getInst_def nth_append)

lemma valueErased_cong:
  fixes M M' :: SILModule
  assumes "insts M' = insts M" and "blocks M' = blocks M"
  shows "valueErased M' v = valueErased M v"
  by (cases v) (simp_all add: valueErased_def assms)

lemma getInst_cong:
  fixes M M' :: SILModule
  assumes "insts M' = insts M"
  shows "getInst M' I = getInst M I"
  by (simp add: getInst_def assms)

lemma operandRefs_cong:
  fixes M M' :: SILModule
  assumes "insts M' = insts M"
  shows "operandRefs M' w = operandRefs M w"
  by (simp add: operandRefs_def getInst_cong [OF assms])

lemma operandRefs_insertAtEnd:
  "operandRefs (M\<lparr>insts := insts M @ [Some x], blocks := b\<rparr>) w =
     operandRefs M w \<union> {(length (insts M), j) | j. j < length (operands x) \<and> operands x ! j = Some w}"
  by (auto simp: operandRefs_def getInst_insertAtEnd getInst_Inr_iff split: if_splits)

lemma defUseConsistent_cong:
  fixes M M' :: SILModule
  assumes "insts M' = insts M" and "blocks M' = blocks M" and "uses M' = uses M"
  shows "defUseConsistent M' = defUseConsistent M"
  by (simp add: defUseConsistent_def valueErased_cong [OF assms(1,2)]
      operandRefs_cong [OF assms(1)] assms(3))

lemma insertAtEnd_facts:
  assumes "insertAtEnd M BB x = Inr (n, M0)"
  shows "n = length (insts M)" and "insts M0 = insts M @ [Some x]" and "uses M0 = uses M"
    and "valueErased M0 v = valueErased M v"
    and "operandRefs M0 w =
         operandRefs M w \<union> {(length (insts M), j) | j. j < length (operands x) \<and> operands x ! j = Some w}"
    and "funcs M0 = funcs M" and "NumBlocksRemoved M0 = NumBlocksRemoved M"
    and "NumInstructionsRemoved M0 = NumInstructionsRemoved M"
proof -
  from assms obtain l where l: "getBlock M BB = Inr l" and n: "n = length (insts M)"
    and M0: "M0 = M\<lparr>insts := insts M @ [Some x],
                     blocks := (blocks M)[BB := Some (l @ [length (insts M)])]\<rparr>"
    by (auto simp: insertAtEnd_Inr)
  show "n = length (insts M)" by (rule n)
  show "insts M0 = insts M @ [Some x]" "uses M0 = uses M" "funcs M0 = funcs M"
    "NumBlocksRemoved M0 = NumBlocksRemoved M"
    "NumInstructionsRemoved M0 = NumInstructionsRemoved M"
    by (simp_all add: M0)
  show "valueErased M0 v = valueErased M v"
    using l by (cases v) (auto simp: M0 valueErased_def nth_append nth_list_update getBlock_Inr_iff)
  show "operandRefs M0 w =
         operandRefs M w \<union> {(length (insts M), j) | j. j < length (operands x) \<and> operands x ! j = Some w}"
    unfolding M0 by (rule operandRefs_insertAtEnd)
qed

lemma operandRefs_live: "(I, k) \<in> operandRefs M w \<Longrightarrow> I < length (insts M)"
  by (auto simp: operandRefs_def getInst_Inr_iff)

lemma createUnreachable_defUse:
  assumes "createUnreachable M BB = Inr (n, M1)" and "defUseConsistent M"
  shows "defUseConsistent M1"
proof -
  note f = insertAtEnd_facts [OF assms(1) [unfolded createUnreachable_def]]
  show ?thesis
    using assms(2) unfolding defUseConsistent_def
    by (simp add: f(3) f(4) f(5))
qed

lemma createBranch_defUse:
  assumes "createBranch M BB Dest Args = Inr (n, M1)" and "defUseConsistent M"
  shows "defUseConsistent M1"
proof -
  let ?x = "\<lparr>kind = BranchInst Dest, operands = Args, sideEffects = False\<rparr>"
  from assms(1) obtain M0 where ins: "insertAtEnd M BB ?x = Inr (n, M0)"
    and args: "None \<notin> set Args"
    and M1: "M1 = M0\<lparr>uses := addUses n 0 (map the Args) (uses M0)\<rparr>"
    by (auto simp: createBranch_def split: if_splits sum.splits)
  note f = insertAtEnd_facts [OF ins]
  have er: "valueErased M1 v = valueErased M v" for v
    using f(4) [of v] valueErased_cong [of M1 M0 v] by (simp add: M1)
  have refs: "operandRefs M1 w =
      operandRefs M w \<union> {(length (insts M), j) | j. j < length Args \<and> Args ! j = Some w}" for w
    using f(5) [of w] operandRefs_cong [of M1 M0 w] by (simp add: M1)
  have args': "(j < length Args \<and> Args ! j = Some w) = (j < length Args \<and> the (Args ! j) = w)" for j w
    using args by (metis nth_mem option.collapse option.sel)
  have u: "uses M1 = addUses (length (insts M)) 0 (map the Args) (uses M)"
    by (simp add: M1 f(1) f(3))
  show ?thesis
    unfolding defUseConsistent_def
  proof (intro allI impI)
    fix w assume "\<not> valueErased M1 w"
    then have "\<not> valueErased M w" by (simp add: er)
    with assms(2) have inv: "set (uses M w) = operandRefs M w" "distinct (uses M w)"
      by (auto simp: defUseConsistent_def)
    have fresh: "\<forall>j \<ge> 0. (length (insts M), j) \<notin> set (uses M w)"
      using inv(1) operandRefs_live [of "length (insts M)" _ M w] by auto
    have "set (uses M1 w) = operandRefs M1 w"
      unfolding u refs addUses_set inv(1) by (auto simp: args')
    moreover have "distinct (uses M1 w)"
      unfolding u by (rule addUses_distinct [where U = "uses M" and w = w, OF inv(2) fresh])
    ultimately show "set (uses M1 w) = operandRefs M1 w \<and> distinct (uses M1 w)" ..
  qed
qed

lemma eraseAndCleanupInst_steps:
  "eraseAndCleanupInst E M I = Inr (r, M') \<Longrightarrow> steps {I} M M'"
  using eraseAndCleanup_steps [of E M "[I]" r M'] by (simp add: eraseAndCleanupInst_def)

lemma createFoldedBranch_Inr:
  assumes "createFoldedBranch E M BB v TrueBB n FalseBB Args = Inr (BI, M1)"
  shows "\<exists>Dest BArgs. createBranch M BB Dest BArgs = Inr (BI, M1) \<and>
       (APInt_eq E v (APInt 1 0) = Inr True \<and> Dest = FalseBB \<and> BArgs = drop n Args \<or>
        APInt_eq E v (APInt 1 0) = Inr False \<and> (NDEBUG E \<or> APInt_eq E v (APInt 1 1) = Inr True) \<and>
          Dest = TrueBB \<and> BArgs = take n Args)"
  using assms
  by (auto simp: createFoldedBranch_def split: sum.splits if_splits)

lemma constantFoldTerminator_cases:
  assumes "constantFoldTerminator E M BB = Inr (r, M')"
  obtains (nofold) "r = False" "M' = M"
  | (fold) TI CBI TrueBB n FalseBB CondI Args lit v Dest BArgs BI M1 r'
    where "getTerminator M BB = Inr TI" "getInst M TI = Inr CBI"
      "kind CBI = CondBranchInst TrueBB n FalseBB"
      "operands CBI = Some (InstResult CondI) # Args"
      "getInst M CondI = Inr lit" "kind lit = IntegerLiteralInst v"
      "APInt_eq E v (APInt 1 0) = Inr True \<and> Dest = FalseBB \<and> BArgs = drop n Args \<or>
       APInt_eq E v (APInt 1 0) = Inr False \<and> (NDEBUG E \<or> APInt_eq E v (APInt 1 1) = Inr True) \<and>
         Dest = TrueBB \<and> BArgs = take n Args"
      "createBranch M BB Dest BArgs = Inr (BI, M1)"
      "eraseAndCleanupInst E M1 TI = Inr (r', M')" "r = True"
proof -
  from assms obtain TI CBI where t: "getTerminator M BB = Inr TI" "getInst M TI = Inr CBI"
    by (auto simp: constantFoldTerminator_def split: sum.splits)
  show thesis
  proof (cases "kind CBI")
    case (CondBranchInst TrueBB n FalseBB)
    show ?thesis
    proof (cases "operands CBI")
      case Nil
      with assms t CondBranchInst show ?thesis
        by (simp add: constantFoldTerminator_def)
    next
      case (Cons V Args)
      show ?thesis
      proof (cases V)
        case None
        with assms t CondBranchInst Cons show ?thesis
          by (simp add: constantFoldTerminator_def)
      next
        case (Some val)
        show ?thesis
        proof (cases val)
          case (BlockArg b a)
          with assms t CondBranchInst Cons Some have "r = False" "M' = M"
            by (simp_all add: constantFoldTerminator_def)
          then show ?thesis by (rule nofold)
        next
          case (InstResult CondI)
          with assms t CondBranchInst Cons Some obtain lit where lit: "getInst M CondI = Inr lit"
            by (auto simp: constantFoldTerminator_def split: sum.splits)
          show ?thesis
          proof (cases "\<exists>v. kind lit = IntegerLiteralInst v")
            case False
            with assms t CondBranchInst Cons Some InstResult lit have "r = False" "M' = M"
              by (auto simp: constantFoldTerminator_def split: ValueKind.splits)
            then show ?thesis by (rule nofold)
          next
            case True
            then obtain v where v: "kind lit = IntegerLiteralInst v" by blast
            from assms t CondBranchInst Cons Some InstResult lit v
            obtain BI M1 r' where
              c: "createFoldedBranch E M BB v TrueBB n FalseBB Args = Inr (BI, M1)"
              and e: "eraseAndCleanupInst E M1 TI = Inr (r', M')" and r: "r = True"
              by (auto simp: constantFoldTerminator_def split: sum.splits)
            from createFoldedBranch_Inr [OF c] obtain Dest BArgs where
              cb: "createBranch M BB Dest BArgs = Inr (BI, M1)"
              and d: "APInt_eq E v (APInt 1 0) = Inr True \<and> Dest = FalseBB \<and> BArgs = drop n Args \<or>
                APInt_eq E v (APInt 1 0) = Inr False \<and>
                (NDEBUG E \<or> APInt_eq E v (APInt 1 1) = Inr True) \<and>
                Dest = TrueBB \<and> BArgs = take n Args"
              by blast
            have ops: "operands CBI = Some (InstResult CondI) # Args"
              by (simp add: Cons Some InstResult)
            show ?thesis
              by (rule fold [OF t CondBranchInst ops lit v d cb e r])
          qed
        qed
      qed
    qed
  qed (use assms t in \<open>simp_all add: constantFoldTerminator_def nofold\<close>)
qed

lemma constantFoldTerminator_defUse:
  assumes "constantFoldTerminator E M BB = Inr (r, M')" and "defUseConsistent M"
  shows "defUseConsistent M'"
  using assms(1)
proof (cases rule: constantFoldTerminator_cases)
  case nofold
  then show ?thesis using assms(2) by simp
next
  case (fold TI CBI TrueBB n FalseBB CondI Args lit v Dest BArgs BI M1 r')
  from createBranch_defUse [OF fold(8) assms(2)] eraseAndCleanupInst_steps [OF fold(9)]
  show ?thesis by (rule steps_defUse [rotated])
qed

definition isNoReturnCall :: "SILModule \<Rightarrow> iid \<Rightarrow> bool" where
  "isNoReturnCall M I = (\<exists>x. getInst M I = Inr x \<and> kind x = ApplyInst (Some True))"

lemma isNoReturnCall_code [code]:
  "isNoReturnCall M I =
     (case getInst M I of Inl e \<Rightarrow> False | Inr x \<Rightarrow> kind x = ApplyInst (Some True))"
  by (cases "getInst M I") (simp_all add: isNoReturnCall_def)

lemma getInst_counter [simp]:
  "getInst (M\<lparr>NumInstructionsRemoved := c\<rparr>) I = getInst M I"
  by (simp add: getInst_def)

lemma isNoReturnCall_counter [simp]:
  "isNoReturnCall (M\<lparr>NumInstructionsRemoved := c\<rparr>) I = isNoReturnCall M I"
  by (simp add: isNoReturnCall_def)

lemma scanBlock_Found:
  "scanBlock E M l True T =
     Inr (True, fold List.insert l T,
          M\<lparr>NumInstructionsRemoved := NumInstructionsRemoved M + of_nat (length l)\<rparr>)"
  by (induction l arbitrary: M T) simp_all

lemma scanBlock_NotFound:
  assumes "scanBlock E M l False T = Inr (F, T', M')"
  shows "(F = False \<and> T' = T \<and> M' = M \<and> (\<forall>I \<in> set l. \<not> isNoReturnCall M I)) \<or>
         (\<exists>pre c tail. l = pre @ c # tail \<and> (\<forall>I \<in> set pre. \<not> isNoReturnCall M I) \<and>
            isNoReturnCall M c \<and> F = True \<and> T' = fold List.insert tail T \<and>
            M' = M\<lparr>NumInstructionsRemoved := NumInstructionsRemoved M + of_nat (length tail)\<rparr>)"
  using assms
proof (induction l)
  case Nil
  then show ?case by simp
next
  case (Cons I l)
  from Cons.prems obtain x where x: "getInst M I = Inr x"
    by (auto split: sum.splits)
  show ?case
  proof (cases "isNoReturnCall M I")
    case True
    with x have "kind x = ApplyInst (Some True)" by (simp add: isNoReturnCall_def)
    with Cons.prems x have "F = True" "T' = fold List.insert l T"
      "M' = M\<lparr>NumInstructionsRemoved := NumInstructionsRemoved M + of_nat (length l)\<rparr>"
      by (simp_all add: isCallToNoReturn_def scanBlock_Found)
    with True have "I # l = [] @ I # l \<and> (\<forall>J \<in> set []. \<not> isNoReturnCall M J) \<and>
            isNoReturnCall M I \<and> F = True \<and> T' = fold List.insert l T \<and>
            M' = M\<lparr>NumInstructionsRemoved := NumInstructionsRemoved M + of_nat (length l)\<rparr>"
      by simp
    then show ?thesis by blast
  next
    case False
    with x have k: "kind x \<noteq> ApplyInst (Some True)" by (simp add: isNoReturnCall_def)
    with Cons.prems x have r: "scanBlock E M l False T = Inr (F, T', M')"
      by (auto simp: isCallToNoReturn_def split: ValueKind.splits sum.splits option.splits if_splits)
    from Cons.IH [OF r] show ?thesis
    proof
      assume "F = False \<and> T' = T \<and> M' = M \<and> (\<forall>I \<in> set l. \<not> isNoReturnCall M I)"
      with False show ?thesis by simp
    next
      assume "\<exists>pre c tail. l = pre @ c # tail \<and> (\<forall>I \<in> set pre. \<not> isNoReturnCall M I) \<and>
            isNoReturnCall M c \<and> F = True \<and> T' = fold List.insert tail T \<and>
            M' = M\<lparr>NumInstructionsRemoved := NumInstructionsRemoved M + of_nat (length tail)\<rparr>"
      then obtain pre c tail where p: "l = pre @ c # tail" "\<forall>I \<in> set pre. \<not> isNoReturnCall M I"
        "isNoReturnCall M c" "F = True" "T' = fold List.insert tail T"
        "M' = M\<lparr>NumInstructionsRemoved := NumInstructionsRemoved M + of_nat (length tail)\<rparr>"
        by blast
      then have "I # l = (I # pre) @ c # tail \<and> (\<forall>J \<in> set (I # pre). \<not> isNoReturnCall M J) \<and>
            isNoReturnCall M c \<and> F = True \<and> T' = fold List.insert tail T \<and>
            M' = M\<lparr>NumInstructionsRemoved := NumInstructionsRemoved M + of_nat (length tail)\<rparr>"
        using False by simp
      then show ?thesis by blast
    qed
  qed
qed

lemma simplifyBlocks_cases:
  assumes "simplifyBlocksWithCallsToNoReturn E M BB = Inr (r, M')"
  obtains (none) l where "getBlock M BB = Inr l" "\<forall>I \<in> set l. \<not> isNoReturnCall M I"
      "r = False" "M' = M"
  | (trunc) l pre c tail M2 r' UI where "getBlock M BB = Inr l" "l = pre @ c # tail"
      "\<forall>I \<in> set pre. \<not> isNoReturnCall M I" "isNoReturnCall M c"
      "eraseAndCleanup E (M\<lparr>NumInstructionsRemoved := NumInstructionsRemoved M + of_nat (length tail)\<rparr>)
         (fold List.insert tail []) = Inr (r', M2)"
      "createUnreachable M2 BB = Inr (UI, M')" "r = True"
proof -
  from assms obtain l F T M1 where l: "getBlock M BB = Inr l"
    and sc: "scanBlock E M l False [] = Inr (F, T, M1)"
    by (auto simp: simplifyBlocksWithCallsToNoReturn_def split: sum.splits)
  from scanBlock_NotFound [OF sc] show thesis
  proof
    assume a: "F = False \<and> T = [] \<and> M1 = M \<and> (\<forall>I \<in> set l. \<not> isNoReturnCall M I)"
    with assms l sc have "r = False" "M' = M"
      by (simp_all add: simplifyBlocksWithCallsToNoReturn_def)
    with a l show thesis by (intro none) auto
  next
    assume "\<exists>pre c tail. l = pre @ c # tail \<and> (\<forall>I \<in> set pre. \<not> isNoReturnCall M I) \<and>
            isNoReturnCall M c \<and> F = True \<and> T = fold List.insert tail [] \<and>
            M1 = M\<lparr>NumInstructionsRemoved := NumInstructionsRemoved M + of_nat (length tail)\<rparr>"
    then obtain pre c tail where p: "l = pre @ c # tail" "\<forall>I \<in> set pre. \<not> isNoReturnCall M I"
        "isNoReturnCall M c" "F = True" "T = fold List.insert tail []"
        "M1 = M\<lparr>NumInstructionsRemoved := NumInstructionsRemoved M + of_nat (length tail)\<rparr>"
      by blast
    with assms l sc obtain r' M2 UI where
      "eraseAndCleanup E (M\<lparr>NumInstructionsRemoved := NumInstructionsRemoved M + of_nat (length tail)\<rparr>)
         (fold List.insert tail []) = Inr (r', M2)"
      "createUnreachable M2 BB = Inr (UI, M')" "r = True"
      by (auto simp: simplifyBlocksWithCallsToNoReturn_def split: sum.splits)
    with l p show thesis by (intro trunc) auto
  qed
qed

lemma defUseConsistent_counter [simp]:
  "defUseConsistent (M\<lparr>NumInstructionsRemoved := c\<rparr>) = defUseConsistent M"
  by (rule defUseConsistent_cong) simp_all

lemma simplifyBlocks_defUse:
  assumes "simplifyBlocksWithCallsToNoReturn E M BB = Inr (r, M')" and "defUseConsistent M"
  shows "defUseConsistent M'"
  using assms(1)
proof (cases rule: simplifyBlocks_cases)
  case (none l)
  then show ?thesis using assms(2) by simp
next
  case (trunc l pre c tail M2 r' UI)
  have "defUseConsistent M2"
    using steps_defUse [OF eraseAndCleanup_steps [OF trunc(5)]] assms(2) by simp
  then show ?thesis by (rule createUnreachable_defUse [OF trunc(6)])
qed

section \<open>The liveness test (claim C7)\<close>

text \<open>C7: for every instruction, \<open>isInstructionTriviallyDead\<close> answers true exactly when the
  instruction is not a terminator, its use-list is empty and it may not have side effects.\<close>

theorem isInstructionTriviallyDead_iff:
  assumes "getInst M I = Inr x"
  shows "isInstructionTriviallyDead M I =
           Inr (\<not> isTermInst (kind x) \<and> use_empty M I \<and> \<not> mayHaveSideEffects x)"
  using assms by (simp add: isInstructionTriviallyDead_def)

theorem isInstructionTriviallyDead_iff_witness:
  "getInst exDead 0 = Inr \<lparr>kind = OtherInst, operands = [], sideEffects = False\<rparr> \<and>
   isInstructionTriviallyDead exDead 0 = Inr True \<and>
   isInstructionTriviallyDead exFold 0 = Inr False \<and>
   isInstructionTriviallyDead exFold 1 = Inr False \<and>
   isInstructionTriviallyDead exNoReturn 0 = Inr False"
proof -
  have g: "getInst exDead 0 = Inr \<lparr>kind = OtherInst, operands = [], sideEffects = False\<rparr>"
    by (simp add: exDead_def getInst_def)
  have g0: "getInst exFold 0 =
      Inr \<lparr>kind = IntegerLiteralInst (APInt 1 1), operands = [], sideEffects = False\<rparr>"
    by (simp add: exFold_def getInst_def)
  have g1: "getInst exFold 1 =
      Inr \<lparr>kind = CondBranchInst 1 0 2, operands = [Some (InstResult 0)], sideEffects = False\<rparr>"
    by (simp add: exFold_def getInst_def)
  have g2: "getInst exNoReturn 0 =
      Inr \<lparr>kind = ApplyInst (Some True), operands = [], sideEffects = True\<rparr>"
    by (simp add: exNoReturn_def getInst_def)
  show ?thesis
    using g isInstructionTriviallyDead_iff [OF g] isInstructionTriviallyDead_iff [OF g0]
      isInstructionTriviallyDead_iff [OF g1] isInstructionTriviallyDead_iff [OF g2]
    by (simp add: isTermInst_def use_empty_def mayHaveSideEffects_def exDead_def exFold_def
        exNoReturn_def)
qed

section \<open>The result of deleting a set (claim C2)\<close>

lemma deletePossiblyDead_result:
  "deletePossiblyDead M l AC = Inr (r, M') \<Longrightarrow> \<not> AC \<Longrightarrow> \<not> r"
  by (induction l arbitrary: M AC) (auto split: sum.splits)

lemma eraseAndCleanup_result:
  assumes "eraseAndCleanup E M ToBeDeleted = Inr (r, M')"
  shows "\<not> r"
proof -
  from assms obtain M1 PD M2 where
    "deletePossiblyDead M1 (DenseSet_iter E PD) False = Inr (r, M2)"
    by (auto simp: eraseAndCleanup_def split: sum.splits)
  from deletePossiblyDead_result [OF this] show ?thesis by simp
qed

text \<open>C2: \<open>eraseAndCleanup\<close> is documented to return true if more instructions were found
  dead and deleted.  On \<open>exFold\<close>, deleting the set that holds only the conditional branch
  also deletes the literal (instruction 0, not in the set), and the result is false: the
  flag starts false and is only ever and-ed.\<close>

theorem eraseAndCleanup_additional_unreported:
  "(case eraseAndCleanup exEnv exFold [1] of
      Inl e \<Rightarrow> False
    | Inr (r, M') \<Rightarrow> r = False \<and> isLive exFold 0 \<and> \<not> isLive M' 0 \<and> \<not> isLive M' 1)"
  by code_simp

section \<open>The sweep and the driver keep def-use consistency\<close>

definition blockInsts :: "SILModule \<Rightarrow> bid set \<Rightarrow> iid set" where
  "blockInsts M B = {I. \<exists>b \<in> B. \<exists>l. getBlock M b = Inr l \<and> I \<in> set l}"

lemma blockInsts_mono: "B \<subseteq> B' \<Longrightarrow> blockInsts M B \<subseteq> blockInsts M B'"
  by (auto simp: blockInsts_def)

lemma steps_getBlock:
  assumes "steps T M M'"
  shows "getBlock M' b =
           (case getBlock M b of
              Inl e \<Rightarrow> Inl e
            | Inr l \<Rightarrow> Inr (filter (\<lambda>I. isLive M I \<longrightarrow> isLive M' I) l))"
  using steps_blocks [OF assms] steps_fields(5) [OF assms]
  by (auto simp: getBlock_def split: option.splits)

lemma steps_getBlock_Inr:
  assumes "steps T M M'" and "getBlock M' b = Inr l'"
  shows "\<exists>l. getBlock M b = Inr l \<and> l' = filter (\<lambda>I. isLive M I \<longrightarrow> isLive M' I) l"
  using assms(2) unfolding steps_getBlock [OF assms(1)] by (auto split: sum.splits)

lemma steps_blockInsts: "steps T M M' \<Longrightarrow> blockInsts M' B \<subseteq> blockInsts M B"
  by (fastforce simp: blockInsts_def dest: steps_getBlock_Inr)

lemma getTerminator_Inr:
  assumes "getTerminator M BB = Inr TI"
  shows "\<exists>l x. getBlock M BB = Inr l \<and> l \<noteq> [] \<and> TI = last l \<and> getInst M TI = Inr x \<and>
               isTermInst (kind x)"
  using assms by (auto simp: getTerminator_def split: sum.splits if_splits)

lemma getTerminator_blockInsts:
  "getTerminator M BB = Inr TI \<Longrightarrow> TI \<in> blockInsts M {BB}"
  by (auto simp: blockInsts_def dest!: getTerminator_Inr)

lemma eraseTerminators_steps:
  assumes "eraseTerminators E M l R = Inr M'"
  shows "steps (blockInsts M (set l - set R)) M M'"
  using assms
proof (induction l arbitrary: M)
  case Nil
  then show ?case by (simp add: steps_refl)
next
  case (Cons BB rest)
  show ?case
  proof (cases "BB \<in> set R")
    case True
    with Cons.prems have "eraseTerminators E M rest R = Inr M'" by simp
    from Cons.IH [OF this] show ?thesis
      by (rule steps_mono) (auto intro!: blockInsts_mono [THEN subsetD] simp: True)
  next
    case False
    with Cons.prems obtain TI r M1 where t: "getTerminator M BB = Inr TI"
      and e: "eraseAndCleanupInst E M TI = Inr (r, M1)"
      and rest: "eraseTerminators E M1 rest R = Inr M'"
      by (auto split: sum.splits)
    let ?T = "blockInsts M (set (BB # rest) - set R)"
    have "TI \<in> ?T"
      using getTerminator_blockInsts [OF t] False
      by (auto simp: blockInsts_def)
    then have s1: "steps ?T M M1"
      using eraseAndCleanupInst_steps [OF e] by (auto intro: steps_mono)
    have "blockInsts M1 (set rest - set R) \<subseteq> ?T"
      using steps_blockInsts [OF s1, of "set rest - set R"]
        blockInsts_mono [of "set rest - set R" "set (BB # rest) - set R" M]
      by auto
    with Cons.IH [OF rest] have "steps ?T M1 M'" by (rule steps_mono)
    with s1 show ?thesis by (rule steps_trans)
  qed
qed

lemma set_fold_insert: "set (fold List.insert l T) = set l \<union> set T"
  by (induction l arbitrary: T) auto

lemma collectInsts_set:
  "collectInsts M l R T0 = Inr T \<Longrightarrow> set T = set T0 \<union> blockInsts M (set l - set R)"
proof (induction l arbitrary: T0)
  case Nil
  then show ?case by (simp add: blockInsts_def)
next
  case (Cons BI rest)
  show ?case
  proof (cases "BI \<in> set R")
    case True
    with Cons.prems have "collectInsts M rest R T0 = Inr T" by simp
    from Cons.IH [OF this] True show ?thesis
      by (auto simp: blockInsts_def)
  next
    case False
    with Cons.prems obtain b where b: "getBlock M BI = Inr b"
      and r: "collectInsts M rest R (fold List.insert b T0) = Inr T"
      by (auto split: sum.splits)
    from Cons.IH [OF r] b False show ?thesis
      by (auto simp: blockInsts_def set_fold_insert)
  qed
qed

lemma eraseBlocks_fields:
  "insts (eraseBlocks M Fn l R) = insts M"
  "uses (eraseBlocks M Fn l R) = uses M"
  "NumInstructionsRemoved (eraseBlocks M Fn l R) = NumInstructionsRemoved M"
  "length (blocks (eraseBlocks M Fn l R)) = length (blocks M)"
  "length (funcs (eraseBlocks M Fn l R)) = length (funcs M)"
  by (induction l arbitrary: M; simp)+

lemma eraseBlocks_blocks:
  "b < length (blocks M) \<Longrightarrow>
   blocks (eraseBlocks M Fn l R) ! b = (if b \<in> set l - set R then None else blocks M ! b)"
proof (induction l arbitrary: M)
  case Nil
  then show ?case by simp
next
  case (Cons a l)
  show ?case
  proof (cases "a \<in> set R")
    case True
    then show ?thesis using Cons.IH [OF Cons.prems] by auto
  next
    case False
    let ?M1 = "M\<lparr>funcs := (funcs M)[Fn := removeAll a (funcs M ! Fn)],
                  blocks := (blocks M)[a := None],
                  NumBlocksRemoved := NumBlocksRemoved M + 1\<rparr>"
    have "b < length (blocks ?M1)" using Cons.prems by simp
    from Cons.IH [OF this] False Cons.prems show ?thesis
      by (cases "b = a") (auto simp: nth_list_update)
  qed
qed

lemma eraseBlocks_counter:
  "NumBlocksRemoved (eraseBlocks M Fn l R) =
     NumBlocksRemoved M + of_nat (length (filter (\<lambda>b. b \<notin> set R) l))"
  by (induction l arbitrary: M) auto

lemma eraseBlocks_funcs:
  "Fn < length (funcs M) \<Longrightarrow>
   funcs (eraseBlocks M Fn l R) =
     (funcs M)[Fn := filter (\<lambda>b. b \<in> set R \<or> b \<notin> set l) (funcs M ! Fn)]"
proof (induction l arbitrary: M)
  case Nil
  then show ?case by (simp add: list_update_same_conv)
next
  case (Cons I rest)
  show ?case
  proof (cases "I \<in> set R")
    case True
    then have "(\<lambda>b. b \<in> set R \<or> b \<notin> set (I # rest)) = (\<lambda>b. b \<in> set R \<or> b \<notin> set rest)"
      by auto
    then show ?thesis using True Cons.IH [OF Cons.prems] by simp
  next
    case False
    let ?M1 = "M\<lparr>funcs := (funcs M)[Fn := removeAll I (funcs M ! Fn)],
                  blocks := (blocks M)[I := None],
                  NumBlocksRemoved := NumBlocksRemoved M + 1\<rparr>"
    have f: "filter (\<lambda>b. b \<in> set R \<or> b \<notin> set rest) (removeAll I F) =
             filter (\<lambda>b. b \<in> set R \<or> b \<notin> set (I # rest)) F" for F
      using False by (induction F) auto
    have "Fn < length (funcs ?M1)" using Cons.prems by simp
    from Cons.IH [OF this] False Cons.prems show ?thesis
      by (simp add: f)
  qed
qed

lemma eraseBlocks_valueErased:
  "valueErased M v \<Longrightarrow> valueErased (eraseBlocks M Fn l R) v"
  by (cases v) (auto simp: valueErased_def eraseBlocks_fields eraseBlocks_blocks)

lemma eraseBlocks_defUse:
  assumes "defUseConsistent M"
  shows "defUseConsistent (eraseBlocks M Fn l R)"
  using assms eraseBlocks_valueErased [of M _ Fn l R]
  unfolding defUseConsistent_def
  by (auto simp: eraseBlocks_fields operandRefs_cong [of "eraseBlocks M Fn l R" M])

lemma removeUnreachableBlocks_cases:
  assumes "removeUnreachableBlocks E M Fn = Inr (r, M')"
  obtains (empty) "Fn < length (funcs M)" "funcs M ! Fn = []" "r = False" "M' = M"
  | (allreach) R where "Fn < length (funcs M)" "funcs M ! Fn \<noteq> []"
      "collectReachable M [hd (funcs M ! Fn)] [hd (funcs M ! Fn)] = Inr R"
      "length R = length (funcs M ! Fn)" "r = False" "M' = M"
  | (sweep) R M1 T r' M2 where "Fn < length (funcs M)" "funcs M ! Fn \<noteq> []"
      "collectReachable M [hd (funcs M ! Fn)] [hd (funcs M ! Fn)] = Inr R"
      "length R \<noteq> length (funcs M ! Fn)"
      "NDEBUG E \<or> length R \<le> length (funcs M ! Fn)"
      "eraseTerminators E M (funcs M ! Fn) R = Inr M1"
      "collectInsts M1 (funcs M1 ! Fn) R [] = Inr T"
      "eraseAndCleanup E M1 T = Inr (r', M2)"
      "M' = eraseBlocks M2 Fn (funcs M2 ! Fn) R" "r = True"
proof -
  from assms have Fn: "Fn < length (funcs M)"
    by (auto simp: removeUnreachableBlocks_def split: if_splits)
  show thesis
  proof (cases "funcs M ! Fn = []")
    case True
    with assms Fn show ?thesis by (intro empty) (auto simp: removeUnreachableBlocks_def)
  next
    case False
    with assms Fn obtain R where
      R: "collectReachable M [hd (funcs M ! Fn)] [hd (funcs M ! Fn)] = Inr R"
      by (auto simp: removeUnreachableBlocks_def split: sum.splits)
    show ?thesis
    proof (cases "length R = length (funcs M ! Fn)")
      case True
      with assms Fn False R show ?thesis
        by (intro allreach [of R]) (auto simp: removeUnreachableBlocks_def split: if_splits)
    next
      case neq: False
      with assms Fn False R obtain M1 T r' M2 where
        "NDEBUG E \<or> length R \<le> length (funcs M ! Fn)"
        "eraseTerminators E M (funcs M ! Fn) R = Inr M1"
        "collectInsts M1 (funcs M1 ! Fn) R [] = Inr T"
        "eraseAndCleanup E M1 T = Inr (r', M2)"
        "M' = eraseBlocks M2 Fn (funcs M2 ! Fn) R" "r = True"
        by (auto simp: removeUnreachableBlocks_def split: if_splits sum.splits)
      with Fn False R neq show ?thesis by (intro sweep)
    qed
  qed
qed

lemma removeUnreachableBlocks_defUse:
  assumes "removeUnreachableBlocks E M Fn = Inr (r, M')" and "defUseConsistent M"
  shows "defUseConsistent M'"
  using assms(1)
proof (cases rule: removeUnreachableBlocks_cases)
  case empty
  then show ?thesis using assms(2) by simp
next
  case (allreach R)
  then show ?thesis using assms(2) by simp
next
  case (sweep R M1 T r' M2)
  have "defUseConsistent M1"
    using steps_defUse [OF eraseTerminators_steps [OF sweep(6)] assms(2)] .
  then have "defUseConsistent M2"
    using steps_defUse [OF eraseAndCleanup_steps [OF sweep(8)]] by simp
  then show ?thesis unfolding sweep(9) by (rule eraseBlocks_defUse)
qed

lemma processBlocks_defUse:
  "processBlocks E M l = Inr M' \<Longrightarrow> defUseConsistent M \<Longrightarrow> defUseConsistent M'"
proof (induction l arbitrary: M)
  case Nil
  then show ?case by simp
next
  case (Cons BB rest)
  from Cons.prems(1) obtain c M1 where f: "constantFoldTerminator E M BB = Inr (c, M1)"
    by (auto split: sum.splits)
  have M1: "defUseConsistent M1" by (rule constantFoldTerminator_defUse [OF f Cons.prems(2)])
  show ?case
  proof (cases c)
    case True
    with Cons.prems(1) f have "processBlocks E M1 rest = Inr M'" by simp
    from Cons.IH [OF this M1] show ?thesis .
  next
    case False
    with Cons.prems(1) f obtain c2 M2 where
      s: "simplifyBlocksWithCallsToNoReturn E M1 BB = Inr (c2, M2)"
      and r: "processBlocks E M2 rest = Inr M'"
      by (auto split: sum.splits)
    from Cons.IH [OF r simplifyBlocks_defUse [OF s M1]] show ?thesis .
  qed
qed

lemma processFunctions_defUse:
  "processFunctions E M l = Inr M' \<Longrightarrow> defUseConsistent M \<Longrightarrow> defUseConsistent M'"
proof (induction l arbitrary: M)
  case Nil
  then show ?case by simp
next
  case (Cons Fn rest)
  from Cons.prems(1) obtain M1 r M2 where p: "processBlocks E M (funcs M ! Fn) = Inr M1"
    and u: "removeUnreachableBlocks E M1 Fn = Inr (r, M2)"
    and rest: "processFunctions E M2 rest = Inr M'"
    by (auto split: sum.splits)
  from Cons.IH [OF rest removeUnreachableBlocks_defUse [OF u processBlocks_defUse [OF p Cons.prems(2)]]]
  show ?case .
qed

lemma performSILDeadCodeElimination_defUse:
  "performSILDeadCodeElimination E M = Inr M' \<Longrightarrow> defUseConsistent M \<Longrightarrow> defUseConsistent M'"
  unfolding performSILDeadCodeElimination_def by (rule processFunctions_defUse)

lemma recursivelyDelete_defUse:
  "recursivelyDeleteTriviallyDeadInstructions M Iopt = Inr (r, M') \<Longrightarrow> defUseConsistent M \<Longrightarrow>
   defUseConsistent M'"
  using recursivelyDelete_steps [of M Iopt r M' "{}"] by (auto intro: steps_defUse)

lemma eraseAndCleanup_defUse:
  "eraseAndCleanup E M T = Inr (r, M') \<Longrightarrow> defUseConsistent M \<Longrightarrow> defUseConsistent M'"
  by (auto dest!: eraseAndCleanup_steps intro: steps_defUse)

section \<open>Def-use consistency under sequences of operations (claim C1)\<close>

datatype operation =
    IsTriviallyDead iid
  | DeleteIfTriviallyDead "iid option"
  | DeleteSet "iid list"
  | FoldTerminator bid
  | TruncateAfterNoReturn bid
  | SweepUnreachable nat
  | RunPass

fun applyOp :: "env \<Rightarrow> operation \<Rightarrow> SILModule \<Rightarrow> error + SILModule" where
  "applyOp E (IsTriviallyDead I) M =
     (case isInstructionTriviallyDead M I of Inl e \<Rightarrow> Inl e | Inr d \<Rightarrow> Inr M)"
| "applyOp E (DeleteIfTriviallyDead I) M =
     (case recursivelyDeleteTriviallyDeadInstructions M I of Inl e \<Rightarrow> Inl e | Inr (r, M') \<Rightarrow> Inr M')"
| "applyOp E (DeleteSet S) M =
     (case eraseAndCleanup E M S of Inl e \<Rightarrow> Inl e | Inr (r, M') \<Rightarrow> Inr M')"
| "applyOp E (FoldTerminator BB) M =
     (case constantFoldTerminator E M BB of Inl e \<Rightarrow> Inl e | Inr (r, M') \<Rightarrow> Inr M')"
| "applyOp E (TruncateAfterNoReturn BB) M =
     (case simplifyBlocksWithCallsToNoReturn E M BB of Inl e \<Rightarrow> Inl e | Inr (r, M') \<Rightarrow> Inr M')"
| "applyOp E (SweepUnreachable Fn) M =
     (case removeUnreachableBlocks E M Fn of Inl e \<Rightarrow> Inl e | Inr (r, M') \<Rightarrow> Inr M')"
| "applyOp E RunPass M = performSILDeadCodeElimination E M"

fun applyOps :: "env \<Rightarrow> operation list \<Rightarrow> SILModule \<Rightarrow> error + SILModule" where
  "applyOps E [] M = Inr M"
| "applyOps E (p # ps) M =
     (case applyOp E p M of Inl e \<Rightarrow> Inl e | Inr M1 \<Rightarrow> applyOps E ps M1)"

definition valueLive :: "SILModule \<Rightarrow> SILValue \<Rightarrow> bool" where
  "valueLive M v =
     (case v of
        InstResult I \<Rightarrow> isLive M I
      | BlockArg b a \<Rightarrow> b < length (blocks M) \<and> blocks M ! b \<noteq> None)"

lemma valueLive_not_erased: "valueLive M v \<Longrightarrow> \<not> valueErased M v"
  by (cases v) (auto simp: valueLive_def valueErased_def isLive_def)

lemma applyOp_defUse:
  assumes "applyOp E p M = Inr M'" and "defUseConsistent M"
  shows "defUseConsistent M'"
proof (cases p)
  case (IsTriviallyDead I)
  with assms show ?thesis by (auto split: sum.splits)
next
  case (DeleteIfTriviallyDead I)
  with assms show ?thesis by (auto split: sum.splits dest: recursivelyDelete_defUse)
next
  case (DeleteSet S)
  with assms show ?thesis by (auto split: sum.splits dest: eraseAndCleanup_defUse)
next
  case (FoldTerminator BB)
  with assms show ?thesis by (auto split: sum.splits dest: constantFoldTerminator_defUse)
next
  case (TruncateAfterNoReturn BB)
  with assms show ?thesis by (auto split: sum.splits dest: simplifyBlocks_defUse)
next
  case (SweepUnreachable Fn)
  with assms show ?thesis by (auto split: sum.splits dest: removeUnreachableBlocks_defUse)
next
  case RunPass
  with assms show ?thesis by (auto dest: performSILDeadCodeElimination_defUse)
qed

lemma applyOps_defUse:
  "applyOps E ps M = Inr M' \<Longrightarrow> defUseConsistent M \<Longrightarrow> defUseConsistent M'"
  by (induction ps arbitrary: M) (auto split: sum.splits dest: applyOp_defUse)

text \<open>C1: def-use consistency is kept by every operation of the pass, in any sequence:
  if every value that has not been destroyed has as its use-list exactly the operand slots
  that reference it, the same holds after the operations, in particular for every live
  value.\<close>

theorem defUse_consistency_invariant:
  assumes "defUseConsistent M" and "applyOps E ps M = Inr M'"
  shows "defUseConsistent M' \<and>
         (\<forall>v. valueLive M' v \<longrightarrow> set (uses M' v) = operandRefs M' v)"
  using applyOps_defUse [OF assms(2,1)]
  by (auto simp: defUseConsistent_def dest: valueLive_not_erased)

lemma operandRefs_exFold:
  "operandRefs exFold w = (if w = InstResult 0 then {(1, 0)} else {})"
  by (auto simp: operandRefs_def getInst_Inr_iff exFold_def nth_Cons less_Suc_eq numeral_eq_Suc
      split: nat.splits)

lemma defUseConsistent_exFold: "defUseConsistent exFold"
  unfolding defUseConsistent_def operandRefs_exFold
  by (simp add: exFold_def)

theorem defUse_consistency_invariant_witness:
  "defUseConsistent exFold \<and>
   (case applyOps exEnv [IsTriviallyDead 0, FoldTerminator 0, SweepUnreachable 0, RunPass] exFold of
      Inl e \<Rightarrow> False
    | Inr M' \<Rightarrow> defUseConsistent M' \<and> \<not> isLive M' 0 \<and> \<not> isLive M' 1 \<and> NumBlocksRemoved M' = 1)"
proof -
  let ?r = "applyOps exEnv [IsTriviallyDead 0, FoldTerminator 0, SweepUnreachable 0, RunPass] exFold"
  have 1: "case ?r of Inl e \<Rightarrow> False
           | Inr M' \<Rightarrow> \<not> isLive M' 0 \<and> \<not> isLive M' 1 \<and> NumBlocksRemoved M' = 1"
    by code_simp
  then obtain M' where M': "?r = Inr M'" by (cases ?r) auto
  have 2: "\<not> isLive M' 0 \<and> \<not> isLive M' 1 \<and> NumBlocksRemoved M' = 1"
    using 1 unfolding M' by simp
  show ?thesis
    unfolding M'
    using defUse_consistency_invariant [OF defUseConsistent_exFold M'] 2 defUseConsistent_exFold
    by simp
qed

lemma isLive_counter [simp]: "isLive (M\<lparr>NumInstructionsRemoved := c\<rparr>) I = isLive M I"
  by (simp add: isLive_def)

lemma getBlock_counter [simp]: "getBlock (M\<lparr>NumInstructionsRemoved := c\<rparr>) b = getBlock M b"
  by (simp add: getBlock_def)

lemma eraseAll_erased:
  "eraseAll M l = Inr M' \<Longrightarrow>
     (\<forall>I \<in> set l. isLive M I \<and> \<not> isLive M' I) \<and> (\<forall>I. isLive M' I \<longrightarrow> isLive M I)"
proof (induction l arbitrary: M)
  case Nil
  then show ?case by simp
next
  case (Cons I l)
  from Cons.prems obtain M1 where e: "eraseFromParent M I = Inr M1"
    and r: "eraseAll M1 l = Inr M'"
    by (auto split: sum.splits)
  from Cons.IH [OF r] eraseFromParent_isLive [OF e] eraseFromParent_was_live [OF e]
  show ?case by auto
qed

lemma eraseAndCleanup_erased:
  assumes "eraseAndCleanup E M T = Inr (r, M')"
  shows "\<forall>I \<in> set T. isLive M I \<and> \<not> isLive M' I"
proof -
  from assms obtain M1 PD M2 where
    a: "dropReferences M T (DenseSet_iter E T) [] = Inr (M1, PD)"
    and b: "deletePossiblyDead M1 (DenseSet_iter E PD) False = Inr (r, M2)"
    and c: "eraseAll M2 (DenseSet_iter E T) = Inr M'"
    by (auto simp: eraseAndCleanup_def split: sum.splits)
  from dropReferences_steps [OF a, of "set T"] have "steps (set T) M M1" by simp
  with deletePossiblyDead_steps [OF b, of "set T"] have "steps (set T) M M2"
    by (rule steps_trans [rotated])
  from steps_isLive [OF this] eraseAll_erased [OF c] show ?thesis by auto
qed

lemma scanBlock_live:
  assumes "scanBlock E M (pre @ rest) False T = Inr res"
    and "\<forall>I \<in> set pre. \<not> isNoReturnCall M I"
  shows "\<forall>I \<in> set pre. isLive M I"
  using assms
proof (induction pre)
  case Nil
  then show ?case by simp
next
  case (Cons I pre)
  from Cons.prems(1) obtain x where x: "getInst M I = Inr x"
    by (auto split: sum.splits)
  with Cons.prems(2) have "kind x \<noteq> ApplyInst (Some True)" by (simp add: isNoReturnCall_def)
  with Cons.prems(1) x have "scanBlock E M (pre @ rest) False T = Inr res"
    by (auto simp: isCallToNoReturn_def split: ValueKind.splits sum.splits option.splits if_splits)
  from Cons.IH [OF this] Cons.prems(2) x show ?case
    by (auto simp: isLive_getInst)
qed

lemma isNoReturnCall_live: "isNoReturnCall M I \<Longrightarrow> isLive M I"
  by (auto simp: isNoReturnCall_def isLive_getInst)

lemma isLive_less: "isLive M I \<Longrightarrow> I < length (insts M)"
  by (simp add: isLive_def)

lemma insertAtEnd_isLive:
  assumes "insertAtEnd M BB x = Inr (n, M')"
  shows "isLive M' I = (isLive M I \<or> I = length (insts M))"
  using assms by (auto simp: insertAtEnd_Inr isLive_def nth_append)

lemma insertAtEnd_getBlock:
  assumes "insertAtEnd M BB x = Inr (n, M')"
  shows "\<exists>l. getBlock M BB = Inr l \<and> getBlock M' BB = Inr (l @ [length (insts M)])"
  using assms by (auto simp: insertAtEnd_Inr getBlock_Inr_iff)

lemma insertAtEnd_getInst:
  assumes "insertAtEnd M BB x = Inr (n, M')"
  shows "getInst M' J = (if J = length (insts M) then Inr x else getInst M J)"
  using assms by (auto simp: insertAtEnd_Inr getInst_insertAtEnd)

section \<open>Truncation after a no-return call (claim C5)\<close>

text \<open>C5: when truncation completes, it returns true exactly when the block holds a call to
  a no-return function; then every instruction after the first such call is destroyed, the
  block consists of what is left of the instructions up to the call followed by a new
  \<open>unreachable\<close> terminator, and the counter has grown by the number of instructions after
  the call (the case of no instruction but the old terminator after the call included);
  otherwise the module is unchanged.\<close>

theorem simplifyBlocksWithCallsToNoReturn_correct:
  assumes "simplifyBlocksWithCallsToNoReturn E M BB = Inr (r, M')" and "getBlock M BB = Inr l"
  shows "r = (\<exists>I \<in> set l. isNoReturnCall M I) \<and>
         (\<not> r \<longrightarrow> M' = M) \<and>
         (r \<longrightarrow> (\<exists>pre c tail. l = pre @ c # tail \<and> (\<forall>I \<in> set pre. \<not> isNoReturnCall M I) \<and>
              isNoReturnCall M c \<and>
              (\<forall>I \<in> set tail. \<not> isLive M' I) \<and>
              getBlock M' BB = Inr (filter (isLive M') (pre @ [c]) @ [length (insts M)]) \<and>
              getInst M' (length (insts M)) =
                Inr \<lparr>kind = UnreachableInst, operands = [], sideEffects = False\<rparr> \<and>
              getTerminator M' BB = Inr (length (insts M)) \<and>
              NumInstructionsRemoved M' = NumInstructionsRemoved M + of_nat (length tail)))"
  using assms(1)
proof (cases rule: simplifyBlocks_cases)
  case (none l0)
  with assms(2) show ?thesis by auto
next
  case (trunc l0 pre c tail M2 r' UI)
  let ?Mc = "M\<lparr>NumInstructionsRemoved := NumInstructionsRemoved M + of_nat (length tail)\<rparr>"
  let ?n = "length (insts M)"
  let ?U = "\<lparr>kind = UnreachableInst, operands = [], sideEffects = False\<rparr>"
  have l: "l = pre @ c # tail" using trunc(1,2) assms(2) by simp
  have st: "steps (set tail) ?Mc M2"
    using eraseAndCleanup_steps [OF trunc(5)] by (simp add: set_fold_insert)
  have len: "length (insts M2) = ?n" using steps_fields(1) [OF st] by simp
  have cnt: "NumInstructionsRemoved M2 = NumInstructionsRemoved M + of_nat (length tail)"
    using steps_fields(4) [OF st] by simp
  have ins: "insertAtEnd M2 BB ?U = Inr (UI, M')"
    using trunc(6) by (simp add: createUnreachable_def)
  have live': "isLive M' I = (isLive M2 I \<or> I = ?n)" for I
    using insertAtEnd_isLive [OF ins] len by simp
  have old: "I < ?n" if "isLive M2 I" for I
    using that len by (auto dest: isLive_less)
  have tail: "\<forall>I \<in> set tail. isLive M I \<and> \<not> isLive M2 I"
    using eraseAndCleanup_erased [OF trunc(5)] by (simp add: set_fold_insert)
  have pre_live: "\<forall>I \<in> set (pre @ [c]). isLive M I"
  proof -
    from assms(1,2) obtain res where "scanBlock E M (pre @ c # tail) False [] = Inr res"
      by (auto simp: simplifyBlocksWithCallsToNoReturn_def l split: sum.splits)
    from scanBlock_live [OF this trunc(3)] isNoReturnCall_live [OF trunc(4)]
    show ?thesis by simp
  qed
  let ?P = "\<lambda>I. isLive M I \<longrightarrow> isLive M2 I"
  have f1: "filter ?P tail = []"
    using tail by (auto simp: filter_empty_conv)
  have f2: "filter ?P (pre @ [c]) = filter (isLive M') (pre @ [c])"
    using pre_live by (intro filter_cong) (auto simp: live' dest: isLive_less)
  have sp: "filter ?P l = filter ?P (pre @ [c]) @ filter ?P tail"
    by (simp add: l)
  have "getBlock M2 BB = Inr (filter ?P l)"
    using steps_getBlock [OF st, of BB] assms(2) by simp
  then have b2: "getBlock M2 BB = Inr (filter (isLive M') (pre @ [c]))"
    unfolding sp f1 f2 by simp
  from insertAtEnd_getBlock [OF ins] b2 len
  have b': "getBlock M' BB = Inr (filter (isLive M') (pre @ [c]) @ [?n])" by simp
  have g': "getInst M' ?n = Inr ?U"
    using insertAtEnd_getInst [OF ins, of ?n] len by simp
  have t': "getTerminator M' BB = Inr ?n"
    by (simp add: getTerminator_def b' g' isTermInst_def)
  have dead': "\<forall>I \<in> set tail. \<not> isLive M' I"
    using tail by (auto simp: live' dest: isLive_less)
  have cnt': "NumInstructionsRemoved M' = NumInstructionsRemoved M + of_nat (length tail)"
    using insertAtEnd_facts(8) [OF ins] cnt by simp
  have ex: "\<exists>I \<in> set l. isNoReturnCall M I" using trunc(4) l by auto
  have "\<exists>pre c tail. l = pre @ c # tail \<and> (\<forall>I \<in> set pre. \<not> isNoReturnCall M I) \<and>
              isNoReturnCall M c \<and>
              (\<forall>I \<in> set tail. \<not> isLive M' I) \<and>
              getBlock M' BB = Inr (filter (isLive M') (pre @ [c]) @ [length (insts M)]) \<and>
              getInst M' (length (insts M)) =
                Inr \<lparr>kind = UnreachableInst, operands = [], sideEffects = False\<rparr> \<and>
              getTerminator M' BB = Inr (length (insts M)) \<and>
              NumInstructionsRemoved M' = NumInstructionsRemoved M + of_nat (length tail)"
    using l trunc(3,4) dead' b' g' t' cnt' by blast
  with ex trunc(7) show ?thesis by simp
qed

theorem simplifyBlocksWithCallsToNoReturn_correct_witness:
  "getBlock exNoReturn 0 = Inr [0, 1] \<and>
   (case simplifyBlocksWithCallsToNoReturn exEnv exNoReturn 0 of
      Inl e \<Rightarrow> False
    | Inr (r, M') \<Rightarrow>
        r = (\<exists>I \<in> set [0, 1]. isNoReturnCall exNoReturn I) \<and> r \<and>
        getBlock M' 0 = Inr [0, 2] \<and> \<not> isLive M' 1 \<and>
        getTerminator M' 0 = Inr 2 \<and> NumInstructionsRemoved M' = 1)"
proof -
  let ?r = "simplifyBlocksWithCallsToNoReturn exEnv exNoReturn 0"
  have 1: "case ?r of Inl e \<Rightarrow> False
    | Inr (r, M') \<Rightarrow> r \<and> getBlock M' 0 = Inr [0, 2] \<and> \<not> isLive M' 1 \<and>
        getTerminator M' 0 = Inr 2 \<and> NumInstructionsRemoved M' = 1"
    by code_simp
  then obtain r M' where eq: "?r = Inr (r, M')" by (cases ?r) auto
  have g: "getBlock exNoReturn 0 = Inr [0, 1]" by code_simp
  have 2: "r \<and> getBlock M' 0 = Inr [0, 2] \<and> \<not> isLive M' 1 \<and>
        getTerminator M' 0 = Inr 2 \<and> NumInstructionsRemoved M' = 1"
    using 1 unfolding eq by simp
  show ?thesis
    unfolding eq using simplifyBlocksWithCallsToNoReturn_correct [OF eq g] 2 g by simp
qed

section \<open>Calls whose callee type is not a function type (claim C8)\<close>

definition returningInst :: "SILModule \<Rightarrow> iid \<Rightarrow> bool" where
  "returningInst M I =
     (\<exists>x. getInst M I = Inr x \<and> kind x \<noteq> ApplyInst None \<and> kind x \<noteq> ApplyInst (Some True))"

definition unresolvedCall :: "SILModule \<Rightarrow> iid \<Rightarrow> bool" where
  "unresolvedCall M I = (\<exists>x. getInst M I = Inr x \<and> kind x = ApplyInst None)"

lemma scanBlock_unresolved_assert:
  assumes "\<not> NDEBUG E" and "\<forall>I \<in> set pre. returningInst M I" and "unresolvedCall M c"
  shows "scanBlock E M (pre @ c # post) False T = Inl AssertionFailed"
  using assms(2)
proof (induction pre)
  case Nil
  from assms(1,3) show ?case
    by (auto simp: unresolvedCall_def isCallToNoReturn_def)
next
  case (Cons I pre)
  then obtain x where x: "getInst M I = Inr x" "kind x \<noteq> ApplyInst None"
    "kind x \<noteq> ApplyInst (Some True)"
    by (auto simp: returningInst_def)
  with Cons show ?case
    by (auto simp: isCallToNoReturn_def split: ValueKind.splits option.splits)
qed

lemma scanBlock_ndebug_quiet:
  assumes "NDEBUG E" and "\<forall>I \<in> set l. isLive M I \<and> \<not> isNoReturnCall M I"
  shows "scanBlock E M l False T = Inr (False, T, M)"
  using assms(2)
proof (induction l)
  case Nil
  show ?case by simp
next
  case (Cons I l)
  then obtain x where x: "getInst M I = Inr x" "kind x \<noteq> ApplyInst (Some True)"
    by (auto simp: isLive_getInst isNoReturnCall_def)
  with Cons assms(1) show ?case
    by (auto simp: isCallToNoReturn_def split: ValueKind.splits option.splits)
qed

text \<open>C8, as the code has it: with assertions enabled, a scan that reaches a call whose
  callee type is not a function type (no call to a no-return function stands before it in
  the block) stops the pass at \<open>assert(false)\<close>.  Only with assertions compiled out is such a
  call taken as one that returns: a block none of whose calls is resolved as no-return is
  then left unchanged and reported as not changed.\<close>

theorem unresolved_callee_asserts:
  "(\<not> NDEBUG E \<and> getBlock M BB = Inr (pre @ c # post) \<and>
      (\<forall>I \<in> set pre. returningInst M I) \<and> unresolvedCall M c
      \<longrightarrow> simplifyBlocksWithCallsToNoReturn E M BB = Inl AssertionFailed) \<and>
   (NDEBUG E \<and> getBlock M BB = Inr l \<and> (\<forall>I \<in> set l. isLive M I \<and> \<not> isNoReturnCall M I)
      \<longrightarrow> isCallToNoReturn E None = Inr False \<and>
          simplifyBlocksWithCallsToNoReturn E M BB = Inr (False, M))"
  by (auto simp: simplifyBlocksWithCallsToNoReturn_def scanBlock_unresolved_assert
      scanBlock_ndebug_quiet isCallToNoReturn_def)

theorem unresolved_callee_asserts_witness:
  "(\<not> NDEBUG exEnv \<and> getBlock exUnresolved 0 = Inr ([] @ 0 # [1]) \<and>
      list_all (returningInst exUnresolved) [] \<and> unresolvedCall exUnresolved 0) \<and>
   simplifyBlocksWithCallsToNoReturn exEnv exUnresolved 0 = Inl AssertionFailed \<and>
   (NDEBUG (exEnv\<lparr>NDEBUG := True\<rparr>) \<and> getBlock exUnresolved 0 = Inr [0, 1] \<and>
      list_all (\<lambda>I. isLive exUnresolved I \<and> \<not> isNoReturnCall exUnresolved I) [0, 1]) \<and>
   simplifyBlocksWithCallsToNoReturn (exEnv\<lparr>NDEBUG := True\<rparr>) exUnresolved 0 =
     Inr (False, exUnresolved)"
proof -
  have a: "\<not> NDEBUG exEnv \<and> getBlock exUnresolved 0 = Inr ([] @ 0 # [1]) \<and>
      (\<forall>I \<in> set []. returningInst exUnresolved I) \<and> unresolvedCall exUnresolved 0"
    by (simp add: exEnv_def exUnresolved_def getBlock_def unresolvedCall_def getInst_def)
  have b: "NDEBUG (exEnv\<lparr>NDEBUG := True\<rparr>) \<and> getBlock exUnresolved 0 = Inr [0, 1] \<and>
      (\<forall>I \<in> set [0, 1]. isLive exUnresolved I \<and> \<not> isNoReturnCall exUnresolved I)"
    by (simp add: exEnv_def exUnresolved_def getBlock_def isNoReturnCall_def getInst_def isLive_def)
  from a b
    unresolved_callee_asserts [of exEnv exUnresolved 0 "[]" 0 "[1]" "[0, 1]"]
    unresolved_callee_asserts [of "exEnv\<lparr>NDEBUG := True\<rparr>" exUnresolved 0 "[]" 0 "[1]" "[0, 1]"]
  show ?thesis unfolding list_all_iff by blast
qed

theorem unresolved_callee_counterexample:
  "(case simplifyBlocksWithCallsToNoReturn exEnv exUnresolved 0 of
      Inl e \<Rightarrow> e = AssertionFailed | Inr res \<Rightarrow> False) \<and>
   (case performSILDeadCodeElimination exEnv exUnresolved of
      Inl e \<Rightarrow> e = AssertionFailed | Inr M' \<Rightarrow> False)"
  by code_simp

section \<open>Reachability\<close>

definition succRel :: "SILModule \<Rightarrow> (bid \<times> bid) set" where
  "succRel M = {(a, b). \<exists>ss. successors M a = Inr ss \<and> b \<in> set ss}"

definition reachableFrom :: "SILModule \<Rightarrow> bid \<Rightarrow> bid set" where
  "reachableFrom M e = {b. (e, b) \<in> (succRel M)\<^sup>*}"

lemma visitSuccs_worklist:
  "visitSuccs ss R W = (R', W') \<Longrightarrow> set W' = set W \<union> (set ss - set R)"
  by (induction ss arbitrary: R W) (auto split: if_splits)

lemma visitSuccs_distinct:
  "visitSuccs ss R W = (R', W') \<Longrightarrow> distinct R \<Longrightarrow> distinct R'"
  by (induction ss arbitrary: R W) (auto split: if_splits)

lemma collectReachable_invariant:
  assumes "collectReachable M R W = Inr R'"
    and "set W \<subseteq> set R"
    and "\<forall>b \<in> set R - set W. \<forall>ss. successors M b = Inr ss \<longrightarrow> set ss \<subseteq> set R"
    and "set R \<subseteq> reachableFrom M e"
    and "distinct R"
  shows "set R' \<subseteq> reachableFrom M e \<and>
         (\<forall>b \<in> set R'. \<forall>ss. successors M b = Inr ss \<longrightarrow> set ss \<subseteq> set R') \<and>
         set R \<subseteq> set R' \<and> distinct R'"
  using assms
proof (induction M R W rule: collectReachable.induct)
  case (1 M Reachable)
  then show ?case by auto
next
  case (2 M Reachable BB Worklist)
  from "2.prems"(1) obtain ss R1 W1 where ss: "successors M BB = Inr ss"
    and v: "visitSuccs ss Reachable Worklist = (R1, W1)"
    and r: "collectReachable M R1 W1 = Inr R'"
    by (auto split: sum.splits prod.splits)
  have R1: "set R1 = set Reachable \<union> set ss" by (rule visitSuccs_set [OF v])
  have W1: "set W1 = set Worklist \<union> (set ss - set Reachable)" by (rule visitSuccs_worklist [OF v])
  have BB: "BB \<in> set Reachable" using "2.prems"(2) by simp
  have a: "set W1 \<subseteq> set R1" using R1 W1 "2.prems"(2) by auto
  have b: "\<forall>b \<in> set R1 - set W1. \<forall>ss. successors M b = Inr ss \<longrightarrow> set ss \<subseteq> set R1"
  proof (intro ballI allI impI)
    fix b ss' assume b: "b \<in> set R1 - set W1" and s': "successors M b = Inr ss'"
    then have bR: "b \<in> set Reachable" "b \<notin> set Worklist" using R1 W1 by auto
    show "set ss' \<subseteq> set R1"
    proof (cases "b = BB")
      case True
      with s' ss have "ss' = ss" by simp
      then show ?thesis using R1 by simp
    next
      case False
      with bR have "b \<in> set Reachable - set (BB # Worklist)" by simp
      with "2.prems"(3) s' have "set ss' \<subseteq> set Reachable" by blast
      then show ?thesis using R1 by auto
    qed
  qed
  have c: "set R1 \<subseteq> reachableFrom M e"
  proof -
    have "set ss \<subseteq> reachableFrom M e"
    proof
      fix x assume "x \<in> set ss"
      then have "(BB, x) \<in> succRel M" using ss by (auto simp: succRel_def)
      moreover have "(e, BB) \<in> (succRel M)\<^sup>*"
        using BB "2.prems"(4) by (auto simp: reachableFrom_def)
      ultimately show "x \<in> reachableFrom M e"
        by (auto simp: reachableFrom_def intro: rtrancl_into_rtrancl)
    qed
    then show ?thesis using R1 "2.prems"(4) by auto
  qed
  have d: "distinct R1" by (rule visitSuccs_distinct [OF v "2.prems"(5)])
  from "2.IH" [OF ss v [symmetric] r a b c d] R1 show ?case by auto
qed

lemma collectReachable_correct:
  assumes "collectReachable M [e] [e] = Inr R"
  shows "set R = reachableFrom M e" and "distinct R"
proof -
  have "set [e] \<subseteq> reachableFrom M e" by (simp add: reachableFrom_def)
  from collectReachable_invariant [OF assms _ _ this]
  have sub: "set R \<subseteq> reachableFrom M e"
    and cl: "\<forall>b \<in> set R. \<forall>ss. successors M b = Inr ss \<longrightarrow> set ss \<subseteq> set R"
    and e: "e \<in> set R" and d: "distinct R"
    by auto
  show "distinct R" by (rule d)
  have "b \<in> set R" if "(e, b) \<in> (succRel M)\<^sup>*" for b
    using that
  proof (induction rule: rtrancl_induct)
    case base
    show ?case by (rule e)
  next
    case (step y z)
    then show ?case using cl by (auto simp: succRel_def)
  qed
  then show "set R = reachableFrom M e"
    using sub by (auto simp: reachableFrom_def)
qed

lemma collectReachable_mono:
  "collectReachable M R W = Inr R' \<Longrightarrow> set R \<subseteq> set R'"
proof (induction M R W rule: collectReachable.induct)
  case (1 M Reachable)
  then show ?case by simp
next
  case (2 M Reachable BB Worklist)
  from "2.prems" obtain ss R1 W1 where ss: "successors M BB = Inr ss"
    and v: "visitSuccs ss Reachable Worklist = (R1, W1)"
    and r: "collectReachable M R1 W1 = Inr R'"
    by (auto split: sum.splits prod.splits)
  from "2.IH" [OF ss v [symmetric] r] visitSuccs_set [OF v] show ?case by auto
qed

lemma hd_filter:
  "F \<noteq> [] \<Longrightarrow> P (hd F) \<Longrightarrow> filter P F \<noteq> [] \<and> hd (filter P F) = hd F"
  by (cases F) auto

lemma steps_block_None:
  assumes "steps T M M'" and "b < length (blocks M)"
  shows "(blocks M' ! b = None) = (blocks M ! b = None)"
  using assms(2) unfolding steps_blocks [OF assms(1)] by simp

lemma sweep_facts:
  assumes Fn: "Fn < length (funcs M)"
    and t: "eraseTerminators E M (funcs M ! Fn) R = Inr M1"
    and c: "collectInsts M1 (funcs M1 ! Fn) R [] = Inr T"
    and e: "eraseAndCleanup E M1 T = Inr (r', M2)"
    and M': "M' = eraseBlocks M2 Fn (funcs M2 ! Fn) R"
  shows "funcs M' = (funcs M)[Fn := filter (\<lambda>b. b \<in> set R) (funcs M ! Fn)]"
    and "NumBlocksRemoved M' =
           NumBlocksRemoved M + of_nat (length (filter (\<lambda>b. b \<notin> set R) (funcs M ! Fn)))"
    and "NumInstructionsRemoved M' = NumInstructionsRemoved M"
    and "\<forall>b < length (blocks M).
           (blocks M' ! b = None) = (blocks M ! b = None \<or> b \<in> set (funcs M ! Fn) \<and> b \<notin> set R)"
    and "\<forall>b \<in> set (funcs M ! Fn) - set R. \<forall>l. getBlock M b = Inr l \<longrightarrow>
           (\<forall>I \<in> set l. \<not> isLive M' I)"
    and "steps UNIV M M2" and "length (insts M') = length (insts M)"
    and "isLive M' = isLive M2"
proof -
  let ?F = "funcs M ! Fn"
  have s1: "steps UNIV M M1"
    using eraseTerminators_steps [OF t] by (rule steps_mono) simp
  have s2: "steps UNIV M1 M2"
    using eraseAndCleanup_steps [OF e] by (rule steps_mono) simp
  show s: "steps UNIV M M2" using s1 s2 by (rule steps_trans)
  have f1: "funcs M1 = funcs M" and f2: "funcs M2 = funcs M"
    using steps_fields(2) [OF s1] steps_fields(2) [OF s] by simp_all
  have "(\<lambda>b. b \<in> set R \<or> b \<notin> set ?F) = (\<lambda>b. b \<in> set R \<or> b \<notin> set ?F)" ..
  have flt: "filter (\<lambda>b. b \<in> set R \<or> b \<notin> set ?F) ?F = filter (\<lambda>b. b \<in> set R) ?F"
    by (rule filter_cong) auto
  show "funcs M' = (funcs M)[Fn := filter (\<lambda>b. b \<in> set R) ?F]"
    using eraseBlocks_funcs [of Fn M2 ?F R] Fn by (simp add: M' f2 flt)
  show "NumBlocksRemoved M' = NumBlocksRemoved M + of_nat (length (filter (\<lambda>b. b \<notin> set R) ?F))"
    using steps_fields(3) [OF s] by (simp add: M' f2 eraseBlocks_counter)
  show "NumInstructionsRemoved M' = NumInstructionsRemoved M"
    using steps_fields(4) [OF s] by (simp add: M' eraseBlocks_fields)
  show "\<forall>b < length (blocks M).
           (blocks M' ! b = None) = (blocks M ! b = None \<or> b \<in> set ?F \<and> b \<notin> set R)"
    using steps_block_None [OF s] steps_fields(5) [OF s]
    by (auto simp: M' f2 eraseBlocks_blocks)
  show "length (insts M') = length (insts M)"
    using steps_fields(1) [OF s] by (simp add: M' eraseBlocks_fields)
  show live: "isLive M' = isLive M2"
    by (rule ext) (simp add: M' isLive_def eraseBlocks_fields)
  have T: "set T = blockInsts M1 (set ?F - set R)"
    using collectInsts_set [OF c] by (simp add: f1)
  show "\<forall>b \<in> set ?F - set R. \<forall>l. getBlock M b = Inr l \<longrightarrow> (\<forall>I \<in> set l. \<not> isLive M' I)"
  proof (intro ballI allI impI)
    fix b l I assume b: "b \<in> set ?F - set R" and l: "getBlock M b = Inr l" and I: "I \<in> set l"
    show "\<not> isLive M' I"
    proof (cases "isLive M1 I")
      case True
      have "getBlock M1 b = Inr (filter (\<lambda>I. isLive M I \<longrightarrow> isLive M1 I) l)"
        using steps_getBlock [OF s1, of b] l by simp
      moreover have "I \<in> set (filter (\<lambda>I. isLive M I \<longrightarrow> isLive M1 I) l)"
        using True I by simp
      ultimately have "I \<in> set T" unfolding T blockInsts_def using b by blast
      with eraseAndCleanup_erased [OF e] show ?thesis by (simp add: live)
    next
      case False
      with steps_isLive [OF s2] show ?thesis by (auto simp: live)
    qed
  qed
qed

section \<open>The reachability sweep (claims C6 and C10)\<close>

text \<open>C10: the sweep never removes the entry block of a non-empty function: after it the
  function is still non-empty, its first block is the same, and that block has not been
  destroyed.\<close>

theorem removeUnreachableBlocks_keeps_entry:
  assumes "removeUnreachableBlocks E M Fn = Inr (r, M')" and "funcs M ! Fn \<noteq> []"
  shows "funcs M' ! Fn \<noteq> [] \<and> hd (funcs M' ! Fn) = hd (funcs M ! Fn) \<and>
         (blocks M' ! hd (funcs M ! Fn) = None \<longrightarrow> blocks M ! hd (funcs M ! Fn) = None)"
  using assms(1)
proof (cases rule: removeUnreachableBlocks_cases)
  case empty
  with assms(2) show ?thesis by simp
next
  case (allreach R)
  with assms(2) show ?thesis by simp
next
  case (sweep R M1 T r' M2)
  let ?F = "funcs M ! Fn"
  note f = sweep_facts [OF sweep(1,6,7,8,9)]
  have e: "hd ?F \<in> set R" using collectReachable_mono [OF sweep(3)] by simp
  have "funcs M' ! Fn = filter (\<lambda>b. b \<in> set R) ?F"
    using f(1) sweep(1) by simp
  with hd_filter [OF assms(2), of "\<lambda>b. b \<in> set R"] e
  have 1: "funcs M' ! Fn \<noteq> [] \<and> hd (funcs M' ! Fn) = hd ?F" by simp
  from sweep(3) obtain ss where "successors M (hd ?F) = Inr ss"
    by (auto split: sum.splits)
  then have "hd ?F < length (blocks M)"
    by (auto simp: successors_def getTerminator_def getBlock_def split: sum.splits if_splits)
  with f(4) e have "blocks M' ! hd ?F = None \<longrightarrow> blocks M ! hd ?F = None" by auto
  with 1 show ?thesis by simp
qed

theorem removeUnreachableBlocks_keeps_entry_witness:
  "funcs exOrphan ! 0 \<noteq> [] \<and>
   (case removeUnreachableBlocks exEnv exOrphan 0 of
      Inl e \<Rightarrow> False
    | Inr (r, M') \<Rightarrow> r \<and> funcs M' ! 0 = [0, 1] \<and> hd (funcs M' ! 0) = hd (funcs exOrphan ! 0) \<and>
        blocks M' ! 0 \<noteq> None)"
proof -
  let ?r = "removeUnreachableBlocks exEnv exOrphan 0"
  have 1: "case ?r of Inl e \<Rightarrow> False
    | Inr (r, M') \<Rightarrow> r \<and> funcs M' ! 0 = [0, 1] \<and> blocks M' ! 0 \<noteq> None"
    by code_simp
  then obtain r M' where eq: "?r = Inr (r, M')" by (cases ?r) auto
  have F: "funcs exOrphan ! 0 \<noteq> []" by (simp add: exOrphan_def)
  have 2: "r \<and> funcs M' ! 0 = [0, 1] \<and> blocks M' ! 0 \<noteq> None"
    using 1 unfolding eq by simp
  show ?thesis
    unfolding eq using removeUnreachableBlocks_keeps_entry [OF eq F] 2 F by simp
qed



lemma createBranch_facts:
  assumes "createBranch M BB Dest Args = Inr (BI, M1)"
  shows "BI = length (insts M)"
    and "getInst M1 J = (if J = length (insts M)
           then Inr \<lparr>kind = BranchInst Dest, operands = Args, sideEffects = False\<rparr>
           else getInst M J)"
    and "\<exists>l. getBlock M BB = Inr l \<and> getBlock M1 BB = Inr (l @ [length (insts M)])"
    and "isLive M1 I = (isLive M I \<or> I = length (insts M))"
    and "operandRefs M1 w =
         operandRefs M w \<union> {(length (insts M), j) | j. j < length Args \<and> Args ! j = Some w}"
proof -
  let ?x = "\<lparr>kind = BranchInst Dest, operands = Args, sideEffects = False\<rparr>"
  from assms obtain M0 where ins: "insertAtEnd M BB ?x = Inr (BI, M0)"
    and M1: "M1 = M0\<lparr>uses := addUses BI 0 (map the Args) (uses M0)\<rparr>"
    by (auto simp: createBranch_def split: if_splits sum.splits)
  have i: "insts M1 = insts M0" and b: "blocks M1 = blocks M0" by (simp_all add: M1)
  show "BI = length (insts M)" by (rule insertAtEnd_facts(1) [OF ins])
  show "getInst M1 J = (if J = length (insts M) then Inr ?x else getInst M J)"
    using insertAtEnd_getInst [OF ins, of J] getInst_cong [OF i, of J] by simp
  show "\<exists>l. getBlock M BB = Inr l \<and> getBlock M1 BB = Inr (l @ [length (insts M)])"
  proof -
    have "getBlock M1 BB = getBlock M0 BB" by (simp add: getBlock_def b)
    with insertAtEnd_getBlock [OF ins] show ?thesis by simp
  qed
  show "isLive M1 I = (isLive M I \<or> I = length (insts M))"
    using insertAtEnd_isLive [OF ins, of I] by (simp add: isLive_def i)
  show "operandRefs M1 w =
         operandRefs M w \<union> {(length (insts M), j) | j. j < length Args \<and> Args ! j = Some w}"
    using insertAtEnd_facts(5) [OF ins, of w] operandRefs_cong [OF i, of w] by simp
qed

lemma steps_operandRefs:
  assumes "steps T M M'"
  shows "operandRefs M' v \<subseteq> operandRefs M v"
proof
  fix p assume "p \<in> operandRefs M' v"
  then obtain I k x' where p: "p = (I, k)" and x': "getInst M' I = Inr x'"
    "k < length (operands x')" "operands x' ! k = Some v"
    by (auto simp: operandRefs_def)
  from steps_getInst [OF assms x'(1)] obtain x where x: "getInst M I = Inr x"
    "length (operands x') = length (operands x)"
    and o: "\<And>j. operands x' ! j = operands x ! j \<or> operands x' ! j = None"
    by blast
  from o [of k] x'(3) have "operands x ! k = Some v" by auto
  with x x'(2) p show "p \<in> operandRefs M v" by (auto simp: operandRefs_def)
qed

lemma collectPossiblyDead_set:
  "set (collectPossiblyDead T ops PD) =
     set PD \<union> {V. Some (InstResult V) \<in> set ops \<and> V \<notin> set T}"
  by (induction ops arbitrary: PD) (auto split: option.splits SILValue.splits)

lemma DenseSet_iter_single [simp]: "DenseSet_iter E [I] = [I]"
  by (simp add: DenseSet_iter_def)

lemma recursivelyDelete_erases:
  assumes "recursivelyDeleteTriviallyDeadInstructions M (Some I) = Inr (r, M')"
    and "isInstructionTriviallyDead M I = Inr True"
  shows "\<not> isLive M' I"
proof -
  from assms obtain M2 D2 where d: "deleteInst M I [] = Inr (M2, D2)"
    and l: "deleteLoop M2 D2 = Inr M'"
    by (auto simp: recursivelyDeleteTriviallyDeadInstructions_def split: sum.splits)
  from deleteInst_steps [OF d isInstructionTriviallyDead_mayTouch [OF assms(2)], of "{}"]
  have D2: "\<forall>J \<in> set D2. mayTouch {} M2 J" and dead: "\<not> isLive M2 I" by auto
  from steps_isLive [OF deleteLoop_steps [OF l D2]] dead show ?thesis by blast
qed

lemma deletePossiblyDead_erases:
  assumes "deletePossiblyDead M l AC = Inr (r, M')" and "I \<in> set l"
    and "uses M (InstResult I) = []" and "getInst M I = Inr x"
    and "\<not> isTermInst (kind x)" and "\<not> sideEffects x"
  shows "\<not> isLive M' I"
  using assms
proof (induction l arbitrary: M AC x)
  case Nil
  then show ?case by simp
next
  case (Cons J l)
  from Cons.prems(1) obtain r1 M1 where
    d: "recursivelyDeleteTriviallyDeadInstructions M (Some J) = Inr (r1, M1)"
    and rest: "deletePossiblyDead M1 l (AC \<and> r1) = Inr (r, M')"
    by (auto split: sum.splits)
  have s1: "steps {} M M1" by (rule recursivelyDelete_steps [OF d])
  have s2: "steps {} M1 M'" by (rule deletePossiblyDead_steps [OF rest])
  have td: "isInstructionTriviallyDead M I = Inr True"
    using Cons.prems(3-6) by (simp add: isInstructionTriviallyDead_True use_empty_def)
  show ?case
  proof (cases "isLive M1 I")
    case False
    with steps_isLive [OF s2] show ?thesis by blast
  next
    case True
    have "J \<noteq> I"
      using recursivelyDelete_erases [OF _ td] d True by auto
    with Cons.prems(2) have I: "I \<in> set l" by simp
    from True obtain x1 where x1: "getInst M1 I = Inr x1" by (auto simp: isLive_getInst)
    from steps_getInst [OF s1 x1] Cons.prems(4)
    have k: "kind x1 = kind x" "sideEffects x1 = sideEffects x" by auto
    have u: "uses M1 (InstResult I) = []"
      using steps_uses [OF s1, of "InstResult I"] Cons.prems(3) by simp
    from Cons.IH [OF rest I u x1] k Cons.prems(5,6) show ?thesis by simp
  qed
qed

lemma dropAll_isLive: "dropAll M I ks = Inr M' \<Longrightarrow> isLive M' J = isLive M J"
  by (induction ks arbitrary: M) (auto split: sum.splits simp: Operand_drop_isLive)

lemma dropAllReferences_isLive:
  "dropAllReferences M I = Inr M' \<Longrightarrow> isLive M' J = isLive M J"
  by (auto simp: dropAllReferences_def split: sum.splits dest: dropAll_isLive)

lemma allDropped_operandRefs:
  assumes "allDropped M I"
  shows "(I, k) \<notin> operandRefs M v"
proof -
  have "operands x ! k \<noteq> Some v" if "getInst M I = Inr x" "k < length (operands x)" for x
    using assms that unfolding allDropped_def by (metis nth_mem option.distinct(1))
  then show ?thesis by (auto simp: operandRefs_def)
qed

lemma defUse_refs:
  "defUseConsistent M \<Longrightarrow> \<not> valueErased M v \<Longrightarrow> operandRefs M v = set (uses M v)"
  by (simp add: defUseConsistent_def)

lemma fold_literal_erased:
  assumes cb: "createBranch M BB Dest BArgs = Inr (BI, M1)"
    and e: "eraseAndCleanup E M1 [TI] = Inr (r', M')"
    and TI: "getInst M TI = Inr CBI"
    and ops: "operands CBI = Some (InstResult CondI) # Args"
    and sub: "set BArgs \<subseteq> set Args"
    and lit: "getInst M CondI = Inr lit" "\<not> isTermInst (kind lit)" "\<not> sideEffects lit"
    and inv: "defUseConsistent M"
    and u: "uses M (InstResult CondI) = [(TI, 0)]"
    and neq: "CondI \<noteq> TI"
  shows "\<not> isLive M' CondI"
proof -
  let ?v = "InstResult CondI"
  note cf = createBranch_facts [OF cb]
  have TIlt: "TI \<noteq> length (insts M)" and Clt: "CondI \<noteq> length (insts M)"
    using TI lit(1) by (auto simp: getInst_Inr_iff)
  have TI1: "getInst M1 TI = Inr CBI" using cf(2) [of TI] TI TIlt by simp
  have C1: "getInst M1 CondI = Inr lit" using cf(2) [of CondI] lit(1) Clt by simp
  from e obtain Ma PD Mb where
    a: "dropReferences M1 [TI] [TI] [] = Inr (Ma, PD)"
    and b: "deletePossiblyDead Ma (DenseSet_iter E PD) False = Inr (r', Mb)"
    and c: "eraseAll Mb [TI] = Inr M'"
    by (auto simp: eraseAndCleanup_def split: sum.splits)
  from a TI1 have da: "dropAllReferences M1 TI = Inr Ma"
    and PD: "PD = collectPossiblyDead [TI] (operands CBI) []"
    by (auto split: sum.splits)
  have inPD: "CondI \<in> set (DenseSet_iter E PD)"
    using neq by (simp add: PD collectPossiblyDead_set ops)
  note sa = dropAllReferences_steps [OF da mayTouch_in [of TI "{TI}" M1]]
  have s: "steps {TI} M1 Ma" and ad: "allDropped Ma TI" using sa by simp_all
  have invA: "defUseConsistent Ma"
    using steps_defUse [OF s createBranch_defUse [OF cb inv]] .
  have liveA: "isLive Ma CondI"
    using dropAllReferences_isLive [OF da, of CondI] C1 by (auto simp: isLive_getInst)
  then obtain litA where litA: "getInst Ma CondI = Inr litA" by (auto simp: isLive_getInst)
  from steps_getInst [OF s litA] C1
  have k: "kind litA = kind lit" "sideEffects litA = sideEffects lit" by auto
  have ne: "\<not> valueErased M ?v" using lit(1) by (auto simp: valueErased_def getInst_Inr_iff)
  have refsM: "operandRefs M ?v = {(TI, 0)}"
    using defUse_refs [OF inv ne] u by simp
  have noarg: "Some ?v \<notin> set Args"
  proof
    assume "Some ?v \<in> set Args"
    then obtain i where "i < length Args" "Args ! i = Some ?v"
      by (auto simp: in_set_conv_nth)
    then have "(TI, Suc i) \<in> operandRefs M ?v"
      using TI ops by (auto simp: operandRefs_def)
    with refsM show False by simp
  qed
  have refs1: "operandRefs M1 ?v = {(TI, 0)}"
  proof -
    have nb: "BArgs ! j \<noteq> Some ?v" if "j < length BArgs" for j
      using noarg sub nth_mem [OF that] by auto
    have emp: "{(length (insts M), j) | j. j < length BArgs \<and> BArgs ! j = Some ?v} = {}"
      using nb by blast
    show ?thesis unfolding cf(5) [of ?v] refsM emp by simp
  qed
  have "operandRefs Ma ?v = {}"
    using steps_operandRefs [OF s, of ?v] refs1 allDropped_operandRefs [OF ad, of 0 ?v]
    by auto
  moreover have "\<not> valueErased Ma ?v"
    using liveA by (auto simp: valueErased_InstResult)
  ultimately have uA: "uses Ma ?v = []"
    using defUse_refs [OF invA, of ?v] by simp
  have "\<not> isLive Mb CondI"
    using deletePossiblyDead_erases [OF b inPD uA litA] k lit(2,3) by simp
  with eraseAll_erased [OF c] show ?thesis by blast
qed

section \<open>Constant folding of conditional branches (claim C4)\<close>

text \<open>C4: let the terminator of the block be a conditional branch.  If its condition is
  defined by a one-bit integer literal and folding completes, it returns true, the block
  ends in a new unconditional branch to the true successor with the true arguments when
  the literal is 1 and to the false successor with the false arguments when it is 0, the
  conditional branch has been destroyed, and so has the literal when the condition was
  its only use and it has no side effects.  If the condition is a block argument or is
  defined by an instruction that is not an integer literal, or the terminator is no
  conditional branch, folding returns false and changes nothing.\<close>

theorem constantFoldTerminator_correct:
  assumes "getTerminator M BB = Inr TI" and "getInst M TI = Inr CBI"
  shows "(kind CBI = CondBranchInst TrueBB n FalseBB \<and>
          operands CBI = Some (InstResult CondI) # Args \<and>
          getInst M CondI = Inr lit \<and> kind lit = IntegerLiteralInst (APInt 1 v) \<and> v < 2 \<and>
          constantFoldTerminator E M BB = Inr (r, M')
          \<longrightarrow> r \<and>
              getTerminator M' BB = Inr (length (insts M)) \<and>
              getInst M' (length (insts M)) =
                Inr \<lparr>kind = BranchInst (if v = 1 then TrueBB else FalseBB),
                     operands = (if v = 1 then take n Args else drop n Args),
                     sideEffects = False\<rparr> \<and>
              \<not> isLive M' TI \<and>
              (defUseConsistent M \<and> uses M (InstResult CondI) = [(TI, 0)] \<and> \<not> sideEffects lit
                 \<longrightarrow> \<not> isLive M' CondI)) \<and>
         ((\<forall>t m f. kind CBI \<noteq> CondBranchInst t m f) \<or>
          (\<exists>t m f b a As. kind CBI = CondBranchInst t m f \<and> operands CBI = Some (BlockArg b a) # As) \<or>
          (\<exists>t m f C As c. kind CBI = CondBranchInst t m f \<and> operands CBI = Some (InstResult C) # As \<and>
             getInst M C = Inr c \<and> (\<forall>w. kind c \<noteq> IntegerLiteralInst w))
          \<longrightarrow> constantFoldTerminator E M BB = Inr (False, M))"
proof (intro conjI impI)
  assume "(\<forall>t m f. kind CBI \<noteq> CondBranchInst t m f) \<or>
          (\<exists>t m f b a As. kind CBI = CondBranchInst t m f \<and> operands CBI = Some (BlockArg b a) # As) \<or>
          (\<exists>t m f C As c. kind CBI = CondBranchInst t m f \<and> operands CBI = Some (InstResult C) # As \<and>
             getInst M C = Inr c \<and> (\<forall>w. kind c \<noteq> IntegerLiteralInst w))"
  then show "constantFoldTerminator E M BB = Inr (False, M)"
    using assms
    by (auto simp: constantFoldTerminator_def split: ValueKind.splits)
next
  assume h: "kind CBI = CondBranchInst TrueBB n FalseBB \<and>
          operands CBI = Some (InstResult CondI) # Args \<and>
          getInst M CondI = Inr lit \<and> kind lit = IntegerLiteralInst (APInt 1 v) \<and> v < 2 \<and>
          constantFoldTerminator E M BB = Inr (r, M')"
  then have k: "kind CBI = CondBranchInst TrueBB n FalseBB"
    and ops: "operands CBI = Some (InstResult CondI) # Args"
    and lit: "getInst M CondI = Inr lit" "kind lit = IntegerLiteralInst (APInt 1 v)"
    and v: "v < 2" and res: "constantFoldTerminator E M BB = Inr (r, M')"
    by simp_all
  let ?Dest = "if v = 1 then TrueBB else FalseBB"
  let ?BArgs = "if v = 1 then take n Args else drop n Args"
  let ?BI = "length (insts M)"
  from res assms k ops lit obtain BI M1 r' where
    c: "createFoldedBranch E M BB (APInt 1 v) TrueBB n FalseBB Args = Inr (BI, M1)"
    and e: "eraseAndCleanupInst E M1 TI = Inr (r', M')" and r: "r = True"
    by (auto simp: constantFoldTerminator_def split: sum.splits)
  have v01: "v = 0 \<or> v = 1" using v by auto
  have cb: "createBranch M BB ?Dest ?BArgs = Inr (BI, M1)"
    using c v01 by (auto simp: createFoldedBranch_def APInt_eq_def split: if_splits)
  note cf = createBranch_facts [OF cb]
  have e': "eraseAndCleanup E M1 [TI] = Inr (r', M')"
    using e by (simp add: eraseAndCleanupInst_def)
  have s: "steps {TI} M1 M'" using eraseAndCleanup_steps [OF e'] by simp
  have TIlt: "TI \<noteq> ?BI" using assms(2) by (auto simp: getInst_Inr_iff)
  have gBI1: "getInst M1 ?BI =
      Inr \<lparr>kind = BranchInst ?Dest, operands = ?BArgs, sideEffects = False\<rparr>"
    using cf(2) [of ?BI] by simp
  have gBI: "getInst M' ?BI =
      Inr \<lparr>kind = BranchInst ?Dest, operands = ?BArgs, sideEffects = False\<rparr>"
    using steps_untouched [OF s gBI1] TIlt by (simp add: isTermInst_def)
  from cf(3) obtain l where l: "getBlock M BB = Inr l" "getBlock M1 BB = Inr (l @ [?BI])"
    by blast
  have liveBI: "isLive M' ?BI" using gBI by (auto simp: isLive_getInst)
  have "getBlock M' BB = Inr (filter (\<lambda>I. isLive M1 I \<longrightarrow> isLive M' I) (l @ [?BI]))"
    using steps_getBlock [OF s, of BB] l(2) by simp
  then have b': "getBlock M' BB = Inr (filter (\<lambda>I. isLive M1 I \<longrightarrow> isLive M' I) l @ [?BI])"
    using liveBI by simp
  have t': "getTerminator M' BB = Inr ?BI"
    by (simp add: getTerminator_def b' gBI isTermInst_def)
  have deadTI: "\<not> isLive M' TI" using eraseAndCleanup_erased [OF e'] by simp
  show "r" by (simp add: r)
  show "getTerminator M' BB = Inr ?BI" by (rule t')
  show "getInst M' ?BI = Inr \<lparr>kind = BranchInst ?Dest, operands = ?BArgs, sideEffects = False\<rparr>"
    by (rule gBI)
  show "\<not> isLive M' TI" by (rule deadTI)
  assume d: "defUseConsistent M \<and> uses M (InstResult CondI) = [(TI, 0)] \<and> \<not> sideEffects lit"
  have neq: "CondI \<noteq> TI" using assms(2) lit k by auto
  have sub: "set ?BArgs \<subseteq> set Args"
    by (auto dest: in_set_takeD in_set_dropD)
  show "\<not> isLive M' CondI"
    using fold_literal_erased [OF cb e' assms(2) ops sub lit(1)] lit(2) d neq
    by (simp add: isTermInst_def)
qed

theorem constantFoldTerminator_correct_witness:
  "getTerminator exFold 0 = Inr 1 \<and> defUseConsistent exFold \<and>
   uses exFold (InstResult 0) = [(1, 0)] \<and>
   (case constantFoldTerminator exEnv exFold 0 of
      Inl e \<Rightarrow> False
    | Inr (r, M') \<Rightarrow>
        r \<and> getTerminator M' 0 = Inr 4 \<and>
        getInst M' 4 = Inr \<lparr>kind = BranchInst 1, operands = [], sideEffects = False\<rparr> \<and>
        \<not> isLive M' 1 \<and> \<not> isLive M' 0) \<and>
   constantFoldTerminator exEnv exOrphan 0 = Inr (False, exOrphan)"
proof -
  let ?lit = "\<lparr>kind = IntegerLiteralInst (APInt 1 1), operands = [], sideEffects = False\<rparr>"
  let ?cbi = "\<lparr>kind = CondBranchInst 1 0 2, operands = [Some (InstResult 0)],
               sideEffects = False\<rparr>"
  let ?br = "\<lparr>kind = BranchInst 1, operands = [], sideEffects = False\<rparr>"
  have t: "getTerminator exFold 0 = Inr 1" by code_simp
  have g: "getInst exFold 1 = Inr ?cbi" by code_simp
  have gl: "getInst exFold 0 = Inr ?lit" by code_simp
  have u: "uses exFold (InstResult 0) = [(1, 0)]" by (simp add: exFold_def)
  have len: "length (insts exFold) = 4" by (simp add: exFold_def)
  let ?r = "constantFoldTerminator exEnv exFold 0"
  have "case ?r of Inl e \<Rightarrow> False | Inr res \<Rightarrow> True" by code_simp
  then obtain r M' where eq: "?r = Inr (r, M')" by (cases ?r) auto
  have 1: "r \<and> getTerminator M' 0 = Inr 4 \<and> getInst M' 4 = Inr ?br \<and>
        \<not> isLive M' 1 \<and> \<not> isLive M' 0"
    using constantFoldTerminator_correct [OF t g, where TrueBB = 1 and n = 0 and FalseBB = 2
        and CondI = 0 and Args = "[]" and lit = ?lit and v = 1 and E = exEnv and r = r
        and M' = M', THEN conjunct1] eq gl u defUseConsistent_exFold len
    by simp
  have t2: "getTerminator exOrphan 0 = Inr 0" by code_simp
  have g2: "getInst exOrphan 0 = Inr ?br" by code_simp
  have 2: "constantFoldTerminator exEnv exOrphan 0 = Inr (False, exOrphan)"
    using constantFoldTerminator_correct [OF t2 g2, where E = exEnv, THEN conjunct2] by simp
  show ?thesis
    unfolding eq using 1 2 t u defUseConsistent_exFold by simp
qed

section \<open>What the transformations do to the statistics counters\<close>


text \<open>The instructions of a block that follow its first call to a no-return function.\<close>

definition tailAfterNoReturn :: "SILModule \<Rightarrow> bid \<Rightarrow> iid list" where
  "tailAfterNoReturn M BB = tl (dropWhile (\<lambda>I. \<not> isNoReturnCall M I) (blockList M BB))"

text \<open>The number of instructions the truncation finds behind a no-return call over a run
  of the driver: for every block that is visited and not folded, the length of that tail
  at the time of the visit.\<close>

fun truncatedInBlocks :: "env \<Rightarrow> SILModule \<Rightarrow> bid list \<Rightarrow> nat" where
  "truncatedInBlocks E M [] = 0"
| "truncatedInBlocks E M (BB # rest) =
     (case constantFoldTerminator E M BB of
        Inl e \<Rightarrow> 0
      | Inr (folded, M1) \<Rightarrow>
          if folded then truncatedInBlocks E M1 rest
          else (case simplifyBlocksWithCallsToNoReturn E M1 BB of
                  Inl e \<Rightarrow> 0
                | Inr (simplified, M2) \<Rightarrow>
                    length (tailAfterNoReturn M1 BB) + truncatedInBlocks E M2 rest))"



lemma blockList_Inr: "getBlock M b = Inr l \<Longrightarrow> blockList M b = l"
  by (simp add: blockList_def)



lemma createBranch_fields:
  assumes "createBranch M BB Dest Args = Inr (BI, M1)"
  shows "funcs M1 = funcs M" and "NumBlocksRemoved M1 = NumBlocksRemoved M"
    and "NumInstructionsRemoved M1 = NumInstructionsRemoved M"
proof -
  from assms obtain M0 where
    ins: "insertAtEnd M BB \<lparr>kind = BranchInst Dest, operands = Args, sideEffects = False\<rparr>
          = Inr (BI, M0)"
    and M1: "M1 = M0\<lparr>uses := addUses BI 0 (map the Args) (uses M0)\<rparr>"
    by (auto simp: createBranch_def split: if_splits sum.splits)
  show "funcs M1 = funcs M" "NumBlocksRemoved M1 = NumBlocksRemoved M"
    "NumInstructionsRemoved M1 = NumInstructionsRemoved M"
    using insertAtEnd_facts(6,7,8) [OF ins] by (simp_all add: M1)
qed

lemma constantFoldTerminator_fields:
  assumes "constantFoldTerminator E M BB = Inr (r, M')"
  shows "funcs M' = funcs M" and "NumBlocksRemoved M' = NumBlocksRemoved M"
    and "NumInstructionsRemoved M' = NumInstructionsRemoved M"
  using assms
proof (atomize (full), cases rule: constantFoldTerminator_cases)
  case nofold
  then show "funcs M' = funcs M \<and> NumBlocksRemoved M' = NumBlocksRemoved M \<and>
    NumInstructionsRemoved M' = NumInstructionsRemoved M" by simp
next
  case (fold TI CBI TrueBB n FalseBB CondI Args lit v Dest BArgs BI M1 r')
  note s = steps_fields [OF eraseAndCleanupInst_steps [OF fold(9)]]
  show "funcs M' = funcs M \<and> NumBlocksRemoved M' = NumBlocksRemoved M \<and>
    NumInstructionsRemoved M' = NumInstructionsRemoved M"
    using s(2,3,4) createBranch_fields [OF fold(8)] by simp
qed

lemma simplifyBlocks_fields:
  assumes "simplifyBlocksWithCallsToNoReturn E M BB = Inr (r, M')"
  shows "funcs M' = funcs M \<and> NumBlocksRemoved M' = NumBlocksRemoved M \<and>
         NumInstructionsRemoved M' =
           NumInstructionsRemoved M + of_nat (length (tailAfterNoReturn M BB))"
  using assms
proof (cases rule: simplifyBlocks_cases)
  case (none l)
  from none(2) have d: "dropWhile (\<lambda>I. \<not> isNoReturnCall M I) l = []"
    by (simp only: dropWhile_eq_Nil_conv)
  have "tailAfterNoReturn M BB = []"
    unfolding tailAfterNoReturn_def blockList_Inr [OF none(1)] d by simp
  with none(4) show ?thesis by simp
next
  case (trunc l pre c tail M2 r' UI)
  have d: "dropWhile (\<lambda>I. \<not> isNoReturnCall M I) l = c # tail"
    using trunc(3,4) by (simp add: trunc(2) dropWhile_append3)
  have t: "tailAfterNoReturn M BB = tail"
    unfolding tailAfterNoReturn_def blockList_Inr [OF trunc(1)] d by simp
  note s = steps_fields [OF eraseAndCleanup_steps [OF trunc(5)]]
  note i = insertAtEnd_facts(6,7,8) [OF trunc(6) [unfolded createUnreachable_def]]
  show ?thesis unfolding t using s(2,3,4) i by simp
qed



lemma processBlocks_fields:
  "processBlocks E M l = Inr M' \<Longrightarrow>
     funcs M' = funcs M \<and> NumBlocksRemoved M' = NumBlocksRemoved M \<and>
     NumInstructionsRemoved M' = NumInstructionsRemoved M + of_nat (truncatedInBlocks E M l)"
proof (induction l arbitrary: M)
  case Nil
  then show ?case by simp
next
  case (Cons BB rest)
  from Cons.prems obtain c M1 where f: "constantFoldTerminator E M BB = Inr (c, M1)"
    by (auto split: sum.splits)
  note ff = constantFoldTerminator_fields [OF f]
  show ?case
  proof (cases c)
    case True
    with Cons.prems f have "processBlocks E M1 rest = Inr M'" by simp
    from Cons.IH [OF this] ff f True show ?thesis by simp
  next
    case False
    with Cons.prems f obtain c2 M2 where
      s: "simplifyBlocksWithCallsToNoReturn E M1 BB = Inr (c2, M2)"
      and r: "processBlocks E M2 rest = Inr M'"
      by (auto split: sum.splits)
    from Cons.IH [OF r] simplifyBlocks_fields [OF s] ff f s False show ?thesis by simp
  qed
qed


section \<open>Running the pass a second time (claim C3)\<close>

text \<open>Structural well-formedness of the block arena: no instruction is linked into two
  blocks, and every linked handle has been allocated.\<close>

definition wfBlocks :: "SILModule \<Rightarrow> bool" where
  "wfBlocks M =
     ((\<forall>b < length (blocks M). \<forall>b' < length (blocks M).
         b \<noteq> b' \<longrightarrow> (\<forall>I \<in> set (blockList M b). I \<notin> set (blockList M b'))) \<and>
      (\<forall>b < length (blocks M). \<forall>I \<in> set (blockList M b). I < length (insts M)))"

lemma wfBlocks_code [code]:
  "wfBlocks M =
     ((\<forall>b \<in> set [0..<length (blocks M)]. \<forall>b' \<in> set [0..<length (blocks M)].
         b \<noteq> b' \<longrightarrow> (\<forall>I \<in> set (blockList M b). I \<notin> set (blockList M b'))) \<and>
      (\<forall>b \<in> set [0..<length (blocks M)]. \<forall>I \<in> set (blockList M b). I < length (insts M)))"
  by (simp add: wfBlocks_def Ball_def)

text \<open>The branch targets named by the instructions of a block.\<close>

definition blockSuccs :: "SILModule \<Rightarrow> bid \<Rightarrow> bid set" where
  "blockSuccs M b =
     (\<Union>I \<in> set (blockList M b).
        case getInst M I of Inl e \<Rightarrow> {} | Inr x \<Rightarrow> set (getSuccessors (kind x)))"

lemma getBlock_less: "getBlock M b = Inr l \<Longrightarrow> b < length (blocks M)"
  by (simp add: getBlock_Inr_iff)

lemma blockList_cases:
  "blockList M b = [] \<or> getBlock M b = Inr (blockList M b)"
  by (cases "getBlock M b") (simp_all add: blockList_def)

lemma wfBlocks_iff:
  "wfBlocks M \<longleftrightarrow>
     (\<forall>b b' l l'. getBlock M b = Inr l \<and> getBlock M b' = Inr l' \<and> b \<noteq> b' \<longrightarrow>
         set l \<inter> set l' = {}) \<and>
     (\<forall>b l. getBlock M b = Inr l \<longrightarrow> (\<forall>I \<in> set l. I < length (insts M)))"
  (is "?L \<longleftrightarrow> ?D \<and> ?B")
proof
  assume L: ?L
  have ?D
  proof (intro allI impI)
    fix b b' l l'
    assume a: "getBlock M b = Inr l \<and> getBlock M b' = Inr l' \<and> b \<noteq> b'"
    then have "b < length (blocks M)" "b' < length (blocks M)"
      "blockList M b = l" "blockList M b' = l'"
      by (auto dest: getBlock_less blockList_Inr)
    with L a have "\<forall>I \<in> set l. I \<notin> set l'" unfolding wfBlocks_def by metis
    then show "set l \<inter> set l' = {}" by blast
  qed
  moreover have ?B
  proof (intro allI impI ballI)
    fix b l I assume a: "getBlock M b = Inr l" "I \<in> set l"
    then have "b < length (blocks M)" "blockList M b = l"
      by (auto dest: getBlock_less blockList_Inr)
    with L a show "I < length (insts M)" unfolding wfBlocks_def by metis
  qed
  ultimately show "?D \<and> ?B" ..
next
  assume R: "?D \<and> ?B"
  show ?L unfolding wfBlocks_def
  proof (intro conjI allI impI ballI)
    fix b b' I
    assume "b < length (blocks M)" "b' < length (blocks M)" "b \<noteq> b'"
      and I: "I \<in> set (blockList M b)"
    show "I \<notin> set (blockList M b')"
    proof
      assume "I \<in> set (blockList M b')"
      with I have n: "set (blockList M b) \<inter> set (blockList M b') \<noteq> {}" by blast
      then have "blockList M b \<noteq> []" "blockList M b' \<noteq> []" by auto
      with blockList_cases [of M b] blockList_cases [of M b']
      have "getBlock M b = Inr (blockList M b)" "getBlock M b' = Inr (blockList M b')" by auto
      with R \<open>b \<noteq> b'\<close> n show False by blast
    qed
  next
    fix b I assume "b < length (blocks M)" and I: "I \<in> set (blockList M b)"
    then have "blockList M b \<noteq> []" by auto
    with blockList_cases [of M b] have "getBlock M b = Inr (blockList M b)" by auto
    with R I show "I < length (insts M)" by blast
  qed
qed

lemma wfBlocks_disjoint:
  "wfBlocks M \<Longrightarrow> getBlock M b = Inr l \<Longrightarrow> getBlock M b' = Inr l' \<Longrightarrow> b \<noteq> b' \<Longrightarrow>
   I \<in> set l \<Longrightarrow> I \<notin> set l'"
  unfolding wfBlocks_iff by blast

lemma wfBlocks_bounded:
  "wfBlocks M \<Longrightarrow> getBlock M b = Inr l \<Longrightarrow> I \<in> set l \<Longrightarrow> I < length (insts M)"
  unfolding wfBlocks_iff by blast

lemma blockSuccs_iff:
  "s \<in> blockSuccs M b \<longleftrightarrow>
     (\<exists>l I x. getBlock M b = Inr l \<and> I \<in> set l \<and> getInst M I = Inr x \<and>
        s \<in> set (getSuccessors (kind x)))"
proof (cases "getBlock M b")
  case (Inl e)
  then show ?thesis by (simp add: blockSuccs_def blockList_def)
next
  case (Inr l)
  have "(s \<in> (case getInst M I of Inl e \<Rightarrow> {} | Inr x \<Rightarrow> set (getSuccessors (kind x)))) =
        (\<exists>x. getInst M I = Inr x \<and> s \<in> set (getSuccessors (kind x)))" for I
    by (cases "getInst M I") auto
  then show ?thesis
    by (simp add: blockSuccs_def blockList_def Inr Bex_def)
qed

text \<open>What every transformation of the pass keeps: an instruction of the later module is
  an instruction of the earlier one, of the same kind, or a terminator created since.\<close>

definition evolves :: "SILModule \<Rightarrow> SILModule \<Rightarrow> bool" where
  "evolves M M' =
     (\<forall>I x'. getInst M' I = Inr x' \<longrightarrow>
        (\<exists>x. getInst M I = Inr x \<and> kind x = kind x') \<or> isTermInst (kind x'))"

definition keepsTerm :: "SILModule \<Rightarrow> SILModule \<Rightarrow> bid \<Rightarrow> bool" where
  "keepsTerm M M' b =
     (\<forall>TI. getTerminator M b = Inr TI \<longrightarrow>
        getTerminator M' b = Inr TI \<and> getInst M' TI = getInst M TI)"

text \<open>A transformation that works on the blocks \<open>B\<close> only: on a well-formed module it
  keeps well-formedness, adds no branch target to any block, and keeps the terminator
  of every other block.\<close>

definition touches :: "bid set \<Rightarrow> SILModule \<Rightarrow> SILModule \<Rightarrow> bool" where
  "touches B M M' =
     (evolves M M' \<and>
      (wfBlocks M \<longrightarrow>
         wfBlocks M' \<and> (\<forall>b. blockSuccs M' b \<subseteq> blockSuccs M b) \<and>
         (\<forall>b. b \<notin> B \<longrightarrow> keepsTerm M M' b)))"

lemma evolves_refl: "evolves M M"
  by (auto simp: evolves_def)

lemma evolves_trans: "evolves M M1 \<Longrightarrow> evolves M1 M2 \<Longrightarrow> evolves M M2"
  unfolding evolves_def by metis

lemma keepsTerm_trans: "keepsTerm M M1 b \<Longrightarrow> keepsTerm M1 M2 b \<Longrightarrow> keepsTerm M M2 b"
  unfolding keepsTerm_def by simp

lemma touches_refl: "touches B M M"
  by (simp add: touches_def evolves_refl keepsTerm_def)

lemma touches_trans:
  assumes "touches B M M1" and "touches B M1 M2"
  shows "touches B M M2"
  unfolding touches_def
proof (intro conjI impI)
  show "evolves M M2" using assms by (auto simp: touches_def intro: evolves_trans)
next
  assume w: "wfBlocks M"
  with assms(1) have w1: "wfBlocks M1" and s1: "\<And>b. blockSuccs M1 b \<subseteq> blockSuccs M b"
    and k1: "\<And>b. b \<notin> B \<Longrightarrow> keepsTerm M M1 b"
    by (auto simp: touches_def)
  with assms(2) have w2: "wfBlocks M2" and s2: "\<And>b. blockSuccs M2 b \<subseteq> blockSuccs M1 b"
    and k2: "\<And>b. b \<notin> B \<Longrightarrow> keepsTerm M1 M2 b"
    by (auto simp: touches_def)
  show "wfBlocks M2" by (rule w2)
  show "\<forall>b. blockSuccs M2 b \<subseteq> blockSuccs M b" using s1 s2 by blast
  show "\<forall>b. b \<notin> B \<longrightarrow> keepsTerm M M2 b" using k1 k2 by (blast intro: keepsTerm_trans)
qed

lemma touches_mono: "touches B M M' \<Longrightarrow> B \<subseteq> B' \<Longrightarrow> touches B' M M'"
  unfolding touches_def by blast

lemma getInst_isLive: "getInst M I = Inr x \<Longrightarrow> isLive M I"
  by (auto simp: getInst_def isLive_def split: if_splits option.splits)

lemma last_filter_keep: "l \<noteq> [] \<Longrightarrow> P (last l) \<Longrightarrow> last (filter P l) = last l"
  by (induction l rule: rev_induct) simp_all

lemma steps_keepsTerm:
  assumes "steps T M M'" and "getTerminator M b = Inr TI" and "TI \<notin> T"
  shows "getTerminator M' b = Inr TI \<and> getInst M' TI = getInst M TI"
proof -
  from getTerminator_Inr [OF assms(2)] obtain l x where l: "getBlock M b = Inr l" "l \<noteq> []"
    "TI = last l" and x: "getInst M TI = Inr x" "isTermInst (kind x)" by blast
  have x': "getInst M' TI = Inr x" by (rule steps_untouched [OF assms(1) x assms(3)])
  let ?P = "\<lambda>I. isLive M I \<longrightarrow> isLive M' I"
  have P: "?P (last l)" using getInst_isLive [OF x'] l(3) by simp
  have g: "getBlock M' b = Inr (filter ?P l)"
    unfolding steps_getBlock [OF assms(1)] by (simp add: l)
  have "last l \<in> set l" using l(2) by simp
  with P have ne: "filter ?P l \<noteq> []" by (auto simp: filter_empty_conv)
  have la: "last (filter ?P l) = TI" using last_filter_keep [of l ?P, OF l(2) P] l(3) by simp
  show ?thesis using g ne la x' x by (simp add: getTerminator_def)
qed

lemma steps_touches:
  assumes "steps T M M'" and "T \<subseteq> blockInsts M B"
  shows "touches B M M'"
  unfolding touches_def
proof (intro conjI impI allI)
  show "evolves M M'"
    unfolding evolves_def using steps_getInst [OF assms(1)] by metis
next
  assume w: "wfBlocks M"
  show "wfBlocks M'"
    unfolding wfBlocks_iff
  proof (intro conjI allI impI ballI)
    fix b b' l l'
    assume a: "getBlock M' b = Inr l \<and> getBlock M' b' = Inr l' \<and> b \<noteq> b'"
    then obtain k k' where "getBlock M b = Inr k" "set l \<subseteq> set k"
      "getBlock M b' = Inr k'" "set l' \<subseteq> set k'"
      using steps_getBlock_Inr [OF assms(1)] by (metis filter_is_subset)
    with w a show "set l \<inter> set l' = {}" unfolding wfBlocks_iff by blast
  next
    fix b l I assume a: "getBlock M' b = Inr l" "I \<in> set l"
    then obtain k where "getBlock M b = Inr k" "set l \<subseteq> set k"
      using steps_getBlock_Inr [OF assms(1)] by (metis filter_is_subset)
    with w a show "I < length (insts M')"
      unfolding wfBlocks_iff steps_fields(1) [OF assms(1)] by blast
  qed
next
  fix b
  show "blockSuccs M' b \<subseteq> blockSuccs M b"
  proof
    fix s assume "s \<in> blockSuccs M' b"
    then obtain l I x' where l: "getBlock M' b = Inr l" "I \<in> set l" "getInst M' I = Inr x'"
      "s \<in> set (getSuccessors (kind x'))" unfolding blockSuccs_iff by blast
    from steps_getBlock_Inr [OF assms(1) l(1)] l(2) obtain k where
      k: "getBlock M b = Inr k" "I \<in> set k" by auto
    from steps_getInst [OF assms(1) l(3)] obtain x where "getInst M I = Inr x" "kind x' = kind x"
      by blast
    with k l(4) show "s \<in> blockSuccs M b" unfolding blockSuccs_iff by auto
  qed
next
  fix b assume w: "wfBlocks M" and b: "b \<notin> B"
  show "keepsTerm M M' b"
    unfolding keepsTerm_def
  proof (intro allI impI)
    fix TI assume t: "getTerminator M b = Inr TI"
    from getTerminator_Inr [OF t] obtain l where l: "getBlock M b = Inr l" "l \<noteq> []" "TI = last l"
      by blast
    then have in_l: "TI \<in> set l" by simp
    have "TI \<notin> T"
    proof
      assume "TI \<in> T"
      with assms(2) obtain b' l' where "b' \<in> B" "getBlock M b' = Inr l'" "TI \<in> set l'"
        by (auto simp: blockInsts_def)
      with wfBlocks_disjoint [OF w l(1) this(2) _ in_l] b show False by auto
    qed
    from steps_keepsTerm [OF assms(1) t this]
    show "getTerminator M' b = Inr TI \<and> getInst M' TI = getInst M TI" .
  qed
qed

lemma same_touches:
  fixes M M' :: SILModule
  assumes i: "insts M' = insts M" and b: "blocks M' = blocks M"
  shows "touches B M M'"
proof -
  have gi: "getInst M' = getInst M" by (rule ext) (simp add: getInst_def i)
  have gb: "getBlock M' = getBlock M" by (rule ext) (simp add: getBlock_def b)
  have gt: "getTerminator M' = getTerminator M"
    by (rule ext) (unfold getTerminator_def gi gb, rule refl)
  have bl: "blockList M' = blockList M" by (rule ext) (simp add: blockList_def gb)
  have bs: "blockSuccs M' = blockSuccs M" by (rule ext) (simp add: blockSuccs_def bl gi)
  have wf: "wfBlocks M' = wfBlocks M" by (simp add: wfBlocks_def bl i b)
  show ?thesis
    by (simp add: touches_def evolves_def keepsTerm_def gi gt bs wf)
qed

lemma insertAtEnd_other:
  assumes "insertAtEnd M BB x = Inr (n, M')" and "b \<noteq> BB"
  shows "getBlock M' b = getBlock M b"
  using assms by (auto simp: insertAtEnd_Inr getBlock_def)

lemma getInst_less: "getInst M I = Inr x \<Longrightarrow> I < length (insts M)"
  by (auto simp: getInst_def split: if_splits)

lemma insertAtEnd_touches:
  assumes i: "insertAtEnd M BB x = Inr (n, M')" and t: "isTermInst (kind x)"
    and s: "set (getSuccessors (kind x)) \<subseteq> blockSuccs M BB"
  shows "touches {BB} M M'"
  unfolding touches_def
proof (intro conjI impI allI)
  note gi = insertAtEnd_getInst [OF i]
  show "evolves M M'"
    unfolding evolves_def using t by (auto simp: gi split: if_splits)
next
  note gi = insertAtEnd_getInst [OF i]
  from insertAtEnd_getBlock [OF i] obtain l where l: "getBlock M BB = Inr l"
    and l': "getBlock M' BB = Inr (l @ [length (insts M)])" by blast
  note go = insertAtEnd_other [OF i]
  have len: "length (insts M') = Suc (length (insts M))"
    using insertAtEnd_facts(2) [OF i] by simp
  assume w: "wfBlocks M"
  have old: "\<exists>k. getBlock M b = Inr k \<and> set k' \<subseteq> insert (length (insts M)) (set k) \<and>
      (b \<noteq> BB \<longrightarrow> k' = k)"
    if "getBlock M' b = Inr k'" for b k'
  proof (cases "b = BB")
    case True
    with that l l' show ?thesis by auto
  next
    case False
    with that go [OF False] show ?thesis by auto
  qed
  show "wfBlocks M'"
    unfolding wfBlocks_iff
  proof (intro conjI allI impI ballI)
    fix b b' k k'
    assume a: "getBlock M' b = Inr k \<and> getBlock M' b' = Inr k' \<and> b \<noteq> b'"
    from a old [of b k] obtain j where j: "getBlock M b = Inr j"
      "set k \<subseteq> insert (length (insts M)) (set j)" "b \<noteq> BB \<longrightarrow> k = j" by blast
    from a old [of b' k'] obtain j' where j': "getBlock M b' = Inr j'"
      "set k' \<subseteq> insert (length (insts M)) (set j')" "b' \<noteq> BB \<longrightarrow> k' = j'" by blast
    have d: "set j \<inter> set j' = {}" using w j(1) j'(1) a unfolding wfBlocks_iff by blast
    have nj: "length (insts M) \<notin> set j" using wfBlocks_bounded [OF w j(1)] by auto
    have nj': "length (insts M) \<notin> set j'" using wfBlocks_bounded [OF w j'(1)] by auto
    show "set k \<inter> set k' = {}"
    proof (cases "b = BB")
      case True
      with a have "b' \<noteq> BB" by simp
      with j'(3) have "k' = j'" by simp
      with d nj' j(2) show ?thesis by auto
    next
      case False
      with j(3) have "k = j" by simp
      with d nj j'(2) show ?thesis by auto
    qed
  next
    fix b k I assume a: "getBlock M' b = Inr k" "I \<in> set k"
    from old [OF a(1)] obtain j where j: "getBlock M b = Inr j"
      "set k \<subseteq> insert (length (insts M)) (set j)" by blast
    with a(2) wfBlocks_bounded [OF w j(1)] show "I < length (insts M')"
      unfolding len by (auto simp: less_Suc_eq)
  qed
  show "blockSuccs M' b \<subseteq> blockSuccs M b" for b
  proof
    fix d assume "d \<in> blockSuccs M' b"
    then obtain k I y where k: "getBlock M' b = Inr k" "I \<in> set k" "getInst M' I = Inr y"
      "d \<in> set (getSuccessors (kind y))" unfolding blockSuccs_iff by blast
    from old [OF k(1)] obtain j where j: "getBlock M b = Inr j"
      "set k \<subseteq> insert (length (insts M)) (set j)" "b \<noteq> BB \<longrightarrow> k = j" by blast
    show "d \<in> blockSuccs M b"
    proof (cases "I = length (insts M)")
      case True
      with k(3) have "y = x" by (simp add: gi)
      have "b = BB"
      proof (rule ccontr)
        assume "b \<noteq> BB"
        with j(3) k(2) have "I \<in> set j" by simp
        with wfBlocks_bounded [OF w j(1)] True show False by auto
      qed
      with s k(4) \<open>y = x\<close> show ?thesis by auto
    next
      case False
      with k(2,3) j(2) have "I \<in> set j" "getInst M I = Inr y" by (auto simp: gi)
      with j(1) k(4) show ?thesis unfolding blockSuccs_iff by blast
    qed
  qed
  show "keepsTerm M M' b" if "b \<notin> {BB}" for b
    unfolding keepsTerm_def
  proof (intro allI impI)
    fix TI assume tm: "getTerminator M b = Inr TI"
    from getTerminator_Inr [OF tm] obtain y where "getInst M TI = Inr y" by blast
    then have "TI \<noteq> length (insts M)" using getInst_less by fastforce
    then have g: "getInst M' TI = getInst M TI" by (simp add: gi)
    from that have gb: "getBlock M' b = getBlock M b" using go by simp
    from getTerminator_Inr [OF tm] obtain k z where k: "getBlock M b = Inr k" "k \<noteq> []"
      "TI = last k" "getInst M TI = Inr z" "isTermInst (kind z)" by blast
    then have "getTerminator M' b = Inr TI"
      using g gb by (simp add: getTerminator_def)
    with g show "getTerminator M' b = Inr TI \<and> getInst M' TI = getInst M TI" by simp
  qed
qed

lemma eraseBlocks_getBlock:
  "getBlock (eraseBlocks M Fn l R) b =
     (if b \<in> set l - set R then Inl UseAfterErase else getBlock M b)"
  using eraseBlocks_blocks [of b M Fn l R] eraseBlocks_fields(4) [of M Fn l R]
  by (auto simp: getBlock_def)

lemma eraseBlocks_getInst: "getInst (eraseBlocks M Fn l R) = getInst M"
  by (rule ext) (simp add: getInst_def eraseBlocks_fields(1))

lemma eraseBlocks_touches: "touches (set l - set R) M (eraseBlocks M Fn l R)"
  unfolding touches_def
proof (intro conjI impI allI)
  let ?M = "eraseBlocks M Fn l R"
  note gi = eraseBlocks_getInst [of M Fn l R]
  note gb = eraseBlocks_getBlock [of M Fn l R]
  show "evolves M ?M" by (simp add: evolves_def gi)
  have old: "getBlock M b = Inr k" if "getBlock ?M b = Inr k" for b k
    using that by (simp add: gb split: if_splits)
  assume w: "wfBlocks M"
  show "wfBlocks ?M"
    using w unfolding wfBlocks_iff eraseBlocks_fields(1) by (meson old)
  show "blockSuccs ?M b \<subseteq> blockSuccs M b" for b
  proof
    fix d assume "d \<in> blockSuccs ?M b"
    then obtain k I y where "getBlock ?M b = Inr k" "I \<in> set k" "getInst M I = Inr y"
      "d \<in> set (getSuccessors (kind y))" unfolding blockSuccs_iff gi by blast
    with old [OF this(1)] show "d \<in> blockSuccs M b" unfolding blockSuccs_iff by blast
  qed
  show "keepsTerm M ?M b" if "b \<notin> set l - set R" for b
  proof -
    from that have "getBlock ?M b = getBlock M b" by (auto simp: gb)
    then have "getTerminator ?M b = getTerminator M b"
      unfolding getTerminator_def gi by simp
    then show ?thesis by (simp add: keepsTerm_def gi)
  qed
qed

lemma createBranch_touches:
  assumes c: "createBranch M BB Dest Args = Inr (BI, M1)" and d: "Dest \<in> blockSuccs M BB"
  shows "touches {BB} M M1"
proof -
  from c obtain M0 where
    ins: "insertAtEnd M BB \<lparr>kind = BranchInst Dest, operands = Args, sideEffects = False\<rparr>
          = Inr (BI, M0)"
    and M1: "M1 = M0\<lparr>uses := addUses BI 0 (map the Args) (uses M0)\<rparr>"
    by (auto simp: createBranch_def split: if_splits sum.splits)
  have "touches {BB} M M0"
    using d by (intro insertAtEnd_touches [OF ins]) (simp_all add: isTermInst_def getSuccessors_def)
  moreover have "touches {BB} M0 M1" by (rule same_touches) (simp_all add: M1)
  ultimately show ?thesis by (rule touches_trans)
qed

lemma constantFoldTerminator_touches:
  assumes "constantFoldTerminator E M BB = Inr (r, M')"
  shows "touches {BB} M M'"
  using assms
proof (cases rule: constantFoldTerminator_cases)
  case nofold
  then show ?thesis by (simp add: touches_refl)
next
  case (fold TI CBI TrueBB n FalseBB CondI Args lit v Dest BArgs BI M1 r')
  from getTerminator_Inr [OF fold(1)] obtain l where l: "getBlock M BB = Inr l" "l \<noteq> []"
    "TI = last l" by blast
  then have TI: "TI \<in> set l" by simp
  have "Dest \<in> set (getSuccessors (kind CBI))"
    using fold(3,7) by (auto simp: getSuccessors_def)
  with l(1) TI fold(2) have d: "Dest \<in> blockSuccs M BB" unfolding blockSuccs_iff by blast
  have t1: "touches {BB} M M1" by (rule createBranch_touches [OF fold(8) d])
  from createBranch_facts(3) [OF fold(8)] l(1)
  have "getBlock M1 BB = Inr (l @ [length (insts M)])" by auto
  with TI have "{TI} \<subseteq> blockInsts M1 {BB}" by (auto simp: blockInsts_def)
  from steps_touches [OF eraseAndCleanupInst_steps [OF fold(9)] this]
  show ?thesis using t1 by (blast intro: touches_trans)
qed

lemma simplifyBlocks_touches:
  assumes "simplifyBlocksWithCallsToNoReturn E M BB = Inr (r, M')"
  shows "touches {BB} M M'"
  using assms
proof (cases rule: simplifyBlocks_cases)
  case (none l)
  then show ?thesis by (simp add: touches_refl)
next
  case (trunc l pre c tail M2 r' UI)
  let ?M0 = "M\<lparr>NumInstructionsRemoved := NumInstructionsRemoved M + of_nat (length tail)\<rparr>"
  have t0: "touches {BB} M ?M0" by (rule same_touches) simp_all
  have "set (fold List.insert tail []) \<subseteq> blockInsts ?M0 {BB}"
    using trunc(1,2) by (auto simp: blockInsts_def set_fold_insert)
  from steps_touches [OF eraseAndCleanup_steps [OF trunc(5)] this]
  have t1: "touches {BB} ?M0 M2" .
  have t2: "touches {BB} M2 M'"
    by (rule insertAtEnd_touches [OF trunc(6) [unfolded createUnreachable_def]])
       (simp_all add: isTermInst_def getSuccessors_def)
  from t0 t1 t2 show ?thesis by (blast intro: touches_trans)
qed

lemma sweep_touches:
  assumes Fn: "Fn < length (funcs M)"
    and t: "eraseTerminators E M (funcs M ! Fn) R = Inr M1"
    and c: "collectInsts M1 (funcs M1 ! Fn) R [] = Inr T"
    and e: "eraseAndCleanup E M1 T = Inr (r', M2)"
    and M': "M' = eraseBlocks M2 Fn (funcs M2 ! Fn) R"
  shows "touches (set (funcs M ! Fn) - set R) M M'"
proof -
  let ?B = "set (funcs M ! Fn) - set R"
  note s1 = eraseTerminators_steps [OF t]
  have f1: "funcs M1 = funcs M" by (rule steps_fields(2) [OF s1])
  have t1: "touches ?B M M1" by (rule steps_touches [OF s1 subset_refl])
  have "set T = blockInsts M1 ?B" using collectInsts_set [OF c] by (simp add: f1)
  then have s2: "steps (blockInsts M1 ?B) M1 M2" using eraseAndCleanup_steps [OF e] by simp
  have f2: "funcs M2 = funcs M" using steps_fields(2) [OF s2] f1 by simp
  have t2: "touches ?B M1 M2" by (rule steps_touches [OF s2 subset_refl])
  have t3: "touches ?B M2 M'" unfolding M' f2 by (rule eraseBlocks_touches)
  from t1 t2 t3 show ?thesis by (blast intro: touches_trans)
qed

text \<open>A terminator is foldable when \<open>constantFoldTerminator\<close> would replace it: a
  conditional branch whose condition is the result of a live integer literal.  A block
  is settled when it has a terminator and that terminator is not foldable.\<close>

definition foldable :: "SILModule \<Rightarrow> SILInstruction \<Rightarrow> bool" where
  "foldable M x =
     (\<exists>t n f C As c v. kind x = CondBranchInst t n f \<and> operands x = Some (InstResult C) # As \<and>
        getInst M C = Inr c \<and> kind c = IntegerLiteralInst v)"

definition settled :: "SILModule \<Rightarrow> bid \<Rightarrow> bool" where
  "settled M b = (\<exists>TI x. getTerminator M b = Inr TI \<and> getInst M TI = Inr x \<and> \<not> foldable M x)"

lemma settled_keep:
  assumes "settled M b" and k: "keepsTerm M M' b" and e: "evolves M M'"
  shows "settled M' b"
proof -
  from assms(1) obtain TI x where t: "getTerminator M b = Inr TI" and x: "getInst M TI = Inr x"
    and nf: "\<not> foldable M x" unfolding settled_def by blast
  from k t x have t': "getTerminator M' b = Inr TI" and x': "getInst M' TI = Inr x"
    by (auto simp: keepsTerm_def)
  have "\<not> foldable M' x"
  proof
    assume "foldable M' x"
    then obtain t n f C As c' v where c: "kind x = CondBranchInst t n f"
      "operands x = Some (InstResult C) # As" "getInst M' C = Inr c'"
      "kind c' = IntegerLiteralInst v" unfolding foldable_def by blast
    from e c(3) have "(\<exists>c. getInst M C = Inr c \<and> kind c = kind c') \<or> isTermInst (kind c')"
      unfolding evolves_def by blast
    with c(4) obtain c0 where "getInst M C = Inr c0" "kind c0 = IntegerLiteralInst v"
      by (auto simp: isTermInst_def)
    with c(1,2) have "foldable M x" unfolding foldable_def by blast
    with nf show False ..
  qed
  with t' x' show ?thesis unfolding settled_def by blast
qed

lemma getTerminator_last:
  assumes "getBlock M b = Inr (l @ [n])" and "getInst M n = Inr x" and "isTermInst (kind x)"
  shows "getTerminator M b = Inr n"
  using assms by (simp add: getTerminator_def)

lemma constantFoldTerminator_settles:
  assumes "constantFoldTerminator E M BB = Inr (r, M')"
  shows "settled M' BB"
  using assms
proof (cases rule: constantFoldTerminator_cases)
  case nofold
  from assms obtain TI CBI where t: "getTerminator M BB = Inr TI" and x: "getInst M TI = Inr CBI"
    by (auto simp: constantFoldTerminator_def split: sum.splits)
  have "\<not> foldable M CBI"
  proof
    assume "foldable M CBI"
    then obtain t' n f C As c v where c: "kind CBI = CondBranchInst t' n f"
      "operands CBI = Some (InstResult C) # As" "getInst M C = Inr c"
      "kind c = IntegerLiteralInst v" unfolding foldable_def by blast
    with assms t x have "r = True"
      by (auto simp: constantFoldTerminator_def split: sum.splits)
    with nofold(1) show False by simp
  qed
  with t x show ?thesis unfolding nofold(2) settled_def by blast
next
  case (fold TI CBI TrueBB n FalseBB CondI Args lit v Dest BArgs BI M1 r')
  note cb = createBranch_facts [OF fold(8)]
  let ?n = "length (insts M)"
  let ?x = "\<lparr>kind = BranchInst Dest, operands = BArgs, sideEffects = False\<rparr>"
  from cb(3) obtain l where l1: "getBlock M1 BB = Inr (l @ [?n])" by blast
  have x1: "getInst M1 ?n = Inr ?x" by (simp add: cb(2))
  have t1: "getTerminator M1 BB = Inr ?n"
    by (rule getTerminator_last [OF l1 x1]) (simp add: isTermInst_def)
  have "TI \<noteq> ?n" using getInst_less [OF fold(2)] by simp
  then have "?n \<notin> {TI}" by simp
  from steps_keepsTerm [OF eraseAndCleanupInst_steps [OF fold(9)] t1 this] x1
  have "getTerminator M' BB = Inr ?n" "getInst M' ?n = Inr ?x" by simp_all
  moreover have "\<not> foldable M' ?x" by (simp add: foldable_def)
  ultimately show ?thesis unfolding settled_def by blast
qed

lemma constantFoldTerminator_stable:
  assumes "settled M BB" and "constantFoldTerminator E M BB = Inr (r, M')"
  shows "r = False \<and> M' = M"
  using assms(2)
proof (cases rule: constantFoldTerminator_cases)
  case nofold
  then show ?thesis by simp
next
  case (fold TI CBI TrueBB n FalseBB CondI Args lit v Dest BArgs BI M1 r')
  then have "foldable M CBI" unfolding foldable_def by blast
  with assms(1) fold(1,2) show ?thesis by (auto simp: settled_def)
qed

lemma simplifyBlocks_settled:
  assumes "simplifyBlocksWithCallsToNoReturn E M BB = Inr (r, M')" and "settled M BB"
  shows "settled M' BB"
  using assms(1)
proof (cases rule: simplifyBlocks_cases)
  case (none l)
  with assms(2) show ?thesis by simp
next
  case (trunc l pre c tail M2 r' UI)
  note i = trunc(6) [unfolded createUnreachable_def]
  let ?x = "\<lparr>kind = UnreachableInst, operands = [], sideEffects = False\<rparr>"
  from insertAtEnd_getBlock [OF i] obtain k where
    k: "getBlock M' BB = Inr (k @ [length (insts M2)])" by blast
  have x: "getInst M' (length (insts M2)) = Inr ?x" by (simp add: insertAtEnd_getInst [OF i])
  have "getTerminator M' BB = Inr (length (insts M2))"
    by (rule getTerminator_last [OF k x]) (simp add: isTermInst_def)
  moreover have "\<not> foldable M' ?x" by (simp add: foldable_def)
  ultimately show ?thesis using x unfolding settled_def by blast
qed

lemma simplifyBlocks_stable:
  assumes "simplifyBlocksWithCallsToNoReturn E M BB = Inr (r, M')"
    and "\<forall>I \<in> set (blockList M BB). \<not> isNoReturnCall M I"
  shows "M' = M"
  using assms(1)
proof (cases rule: simplifyBlocks_cases)
  case (none l)
  then show ?thesis by simp
next
  case (trunc l pre c tail M2 r' UI)
  then have "c \<in> set (blockList M BB)" by (simp add: blockList_def)
  with assms(2) trunc(4) show ?thesis by blast
qed

lemma touches_wf: "touches B M M' \<Longrightarrow> wfBlocks M \<Longrightarrow> wfBlocks M'"
  by (simp add: touches_def)

lemma touches_settled:
  "touches B M M' \<Longrightarrow> wfBlocks M \<Longrightarrow> settled M b \<Longrightarrow> b \<notin> B \<Longrightarrow> settled M' b"
  by (auto simp: touches_def intro: settled_keep)

lemma processBlocks_touches:
  "processBlocks E M bs = Inr M' \<Longrightarrow> touches (set bs) M M'"
proof (induction bs arbitrary: M)
  case Nil
  then show ?case by (simp add: touches_refl)
next
  case (Cons BB rest)
  from Cons.prems obtain c M1 where f: "constantFoldTerminator E M BB = Inr (c, M1)"
    by (auto split: sum.splits)
  have t1: "touches (set (BB # rest)) M M1"
    by (rule touches_mono [OF constantFoldTerminator_touches [OF f]]) simp
  show ?case
  proof (cases c)
    case True
    with Cons.prems f have "processBlocks E M1 rest = Inr M'" by simp
    from Cons.IH [OF this] have "touches (set (BB # rest)) M1 M'"
      by (rule touches_mono) auto
    with t1 show ?thesis by (rule touches_trans)
  next
    case False
    with Cons.prems f obtain c2 M2 where
      s: "simplifyBlocksWithCallsToNoReturn E M1 BB = Inr (c2, M2)"
      and r: "processBlocks E M2 rest = Inr M'"
      by (auto split: sum.splits)
    have t2: "touches (set (BB # rest)) M1 M2"
      by (rule touches_mono [OF simplifyBlocks_touches [OF s]]) simp
    from Cons.IH [OF r] have "touches (set (BB # rest)) M2 M'"
      by (rule touches_mono) auto
    with t1 t2 show ?thesis by (blast intro: touches_trans)
  qed
qed

lemma processBlocks_settles:
  assumes "processBlocks E M bs = Inr M'" and "wfBlocks M" and "\<forall>b \<in> S. settled M b"
  shows "\<forall>b \<in> S \<union> set bs. settled M' b"
  using assms
proof (induction bs arbitrary: M S)
  case Nil
  then show ?case by simp
next
  case (Cons BB rest)
  from Cons.prems(1) obtain c M1 where f: "constantFoldTerminator E M BB = Inr (c, M1)"
    by (auto split: sum.splits)
  note t1 = constantFoldTerminator_touches [OF f]
  have w1: "wfBlocks M1" by (rule touches_wf [OF t1 Cons.prems(2)])
  have s1: "\<forall>b \<in> insert BB S. settled M1 b"
  proof
    fix b assume b: "b \<in> insert BB S"
    show "settled M1 b"
    proof (cases "b = BB")
      case True
      then show ?thesis using constantFoldTerminator_settles [OF f] by simp
    next
      case False
      with b Cons.prems(3) have "settled M b" by simp
      from touches_settled [OF t1 Cons.prems(2) this] False show ?thesis by simp
    qed
  qed
  show ?case
  proof (cases c)
    case True
    with Cons.prems(1) f have "processBlocks E M1 rest = Inr M'" by simp
    from Cons.IH [OF this w1 s1] show ?thesis by simp
  next
    case False
    with Cons.prems(1) f obtain c2 M2 where
      s: "simplifyBlocksWithCallsToNoReturn E M1 BB = Inr (c2, M2)"
      and r: "processBlocks E M2 rest = Inr M'"
      by (auto split: sum.splits)
    note t2 = simplifyBlocks_touches [OF s]
    have w2: "wfBlocks M2" by (rule touches_wf [OF t2 w1])
    have s2: "\<forall>b \<in> insert BB S. settled M2 b"
    proof
      fix b assume b: "b \<in> insert BB S"
      show "settled M2 b"
      proof (cases "b = BB")
        case True
        then show ?thesis using simplifyBlocks_settled [OF s] s1 by simp
      next
        case False
        from touches_settled [OF t2 w1 s1 [rule_format, OF b]] False show ?thesis by simp
      qed
    qed
    from Cons.IH [OF r w2 s2] show ?thesis by simp
  qed
qed

lemma processBlocks_stable:
  assumes "processBlocks E M bs = Inr M'"
    and "\<forall>b \<in> set bs. settled M b \<and> (\<forall>I \<in> set (blockList M b). \<not> isNoReturnCall M I)"
  shows "M' = M"
  using assms
proof (induction bs)
  case Nil
  then show ?case by simp
next
  case (Cons BB rest)
  from Cons.prems(1) obtain c M1 where f: "constantFoldTerminator E M BB = Inr (c, M1)"
    by (auto split: sum.splits)
  from Cons.prems(2) have "settled M BB" by simp
  from constantFoldTerminator_stable [OF this f] have c: "c = False" "M1 = M" by simp_all
  with Cons.prems(1) f obtain c2 M2 where
    s: "simplifyBlocksWithCallsToNoReturn E M BB = Inr (c2, M2)"
    and r: "processBlocks E M2 rest = Inr M'"
    by (auto split: sum.splits)
  from simplifyBlocks_stable [OF s] Cons.prems(2) have "M2 = M" by simp
  with r Cons.IH Cons.prems(2) show ?case by simp
qed

text \<open>Properties of the block list \<open>F\<close> of a function: every branch target named in a
  block of \<open>F\<close> is in \<open>F\<close>; the successors of the blocks of \<open>F\<close> are in \<open>F\<close>; every block
  of \<open>F\<close> can be reached from the entry block.\<close>

definition closedI :: "SILModule \<Rightarrow> bid list \<Rightarrow> bool" where
  "closedI M F = (\<forall>b \<in> set F. blockSuccs M b \<subseteq> set F)"

definition closedT :: "SILModule \<Rightarrow> bid list \<Rightarrow> bool" where
  "closedT M F = (\<forall>b \<in> set F. \<forall>ss. successors M b = Inr ss \<longrightarrow> set ss \<subseteq> set F)"

definition swept :: "SILModule \<Rightarrow> bid list \<Rightarrow> bool" where
  "swept M F = (F = [] \<or> set F \<subseteq> reachableFrom M (hd F))"

definition finished :: "SILModule \<Rightarrow> bid list \<Rightarrow> bool" where
  "finished M F = ((\<forall>b \<in> set F. settled M b) \<and> closedT M F \<and> swept M F)"

lemma successors_blockSuccs:
  assumes "successors M b = Inr ss"
  shows "set ss \<subseteq> blockSuccs M b"
proof -
  from assms obtain TI x where t: "getTerminator M b = Inr TI" and x: "getInst M TI = Inr x"
    and ss: "ss = getSuccessors (kind x)"
    by (auto simp: successors_def split: sum.splits)
  from getTerminator_Inr [OF t] obtain l where "getBlock M b = Inr l" "l \<noteq> []" "TI = last l"
    by blast
  then have l: "getBlock M b = Inr l" "TI \<in> set l" by simp_all
  show ?thesis
  proof
    fix s assume "s \<in> set ss"
    with ss have "s \<in> set (getSuccessors (kind x))" by simp
    with l x show "s \<in> blockSuccs M b"
      unfolding blockSuccs_iff by (intro exI [of _ l] exI [of _ TI] exI [of _ x]) simp
  qed
qed

lemma closedI_closedT: "closedI M F \<Longrightarrow> closedT M F"
  unfolding closedI_def closedT_def using successors_blockSuccs by blast

lemma successors_keep:
  assumes "keepsTerm M M' b" and "successors M b = Inr ss"
  shows "successors M' b = Inr ss"
proof -
  from assms(2) obtain TI where t: "getTerminator M b = Inr TI"
    by (auto simp: successors_def split: sum.splits)
  with assms(1) have "getTerminator M' b = Inr TI" "getInst M' TI = getInst M TI"
    by (auto simp: keepsTerm_def)
  with assms(2) t show ?thesis by (simp add: successors_def)
qed

lemma settled_successors: "settled M b \<Longrightarrow> \<exists>ss. successors M b = Inr ss"
  by (auto simp: settled_def successors_def)

lemma reach_keep:
  assumes "(e, b) \<in> (succRel M)\<^sup>*" and "e \<in> S"
    and "\<forall>y \<in> S. \<forall>ss. successors M y = Inr ss \<longrightarrow> set ss \<subseteq> S \<and> successors M' y = Inr ss"
  shows "(e, b) \<in> (succRel M')\<^sup>* \<and> b \<in> S"
  using assms(1)
proof (induction rule: rtrancl_induct)
  case base
  then show ?case using assms(2) by simp
next
  case (step y z)
  from step(2) obtain ss where ss: "successors M y = Inr ss" "z \<in> set ss"
    by (auto simp: succRel_def)
  with step(3) assms(3) have "set ss \<subseteq> S" "successors M' y = Inr ss" by blast+
  with ss(2) have "(y, z) \<in> succRel M'" "z \<in> S" by (auto simp: succRel_def)
  with step(3) show ?case by (auto intro: rtrancl_into_rtrancl)
qed

lemma finished_keep:
  assumes f: "finished M F" and k: "\<forall>b \<in> set F. keepsTerm M M' b" and e: "evolves M M'"
  shows "finished M' F"
proof -
  from f have s: "\<forall>b \<in> set F. settled M b" and c: "closedT M F" and sw: "swept M F"
    by (simp_all add: finished_def)
  have s': "\<forall>b \<in> set F. settled M' b" using s k e by (blast intro: settled_keep)
  have kp: "\<forall>y \<in> set F. \<forall>ss. successors M y = Inr ss \<longrightarrow>
      set ss \<subseteq> set F \<and> successors M' y = Inr ss"
    using c k unfolding closedT_def by (blast intro: successors_keep)
  have c': "closedT M' F"
    unfolding closedT_def
  proof (intro ballI allI impI)
    fix b ss' assume b: "b \<in> set F" and ss': "successors M' b = Inr ss'"
    from settled_successors [OF s [rule_format, OF b]] obtain ss where
      ss: "successors M b = Inr ss" by blast
    with kp b have "set ss \<subseteq> set F" "successors M' b = Inr ss" by blast+
    with ss' show "set ss' \<subseteq> set F" by simp
  qed
  have sw': "swept M' F"
  proof (cases "F = []")
    case True
    then show ?thesis by (simp add: swept_def)
  next
    case False
    then have hd: "hd F \<in> set F" by simp
    from sw False have r: "set F \<subseteq> reachableFrom M (hd F)" by (simp add: swept_def)
    have "set F \<subseteq> reachableFrom M' (hd F)"
    proof
      fix b assume "b \<in> set F"
      with r have "(hd F, b) \<in> (succRel M)\<^sup>*" by (auto simp: reachableFrom_def)
      from reach_keep [OF this hd kp] show "b \<in> reachableFrom M' (hd F)"
        by (simp add: reachableFrom_def)
    qed
    then show ?thesis by (simp add: swept_def)
  qed
  from s' c' sw' show ?thesis by (simp add: finished_def)
qed

lemma closedT_reachable:
  assumes "closedT M F" and "e \<in> set F"
  shows "reachableFrom M e \<subseteq> set F"
proof
  fix b assume "b \<in> reachableFrom M e"
  then have "(e, b) \<in> (succRel M)\<^sup>*" by (simp add: reachableFrom_def)
  then show "b \<in> set F"
  proof (induction rule: rtrancl_induct)
    case base
    then show ?case by (rule assms(2))
  next
    case (step y z)
    then show ?case using assms(1) by (auto simp: succRel_def closedT_def)
  qed
qed

lemma reachableFrom_closed:
  "b \<in> reachableFrom M e \<Longrightarrow> successors M b = Inr ss \<Longrightarrow> set ss \<subseteq> reachableFrom M e"
  by (auto simp: reachableFrom_def succRel_def intro: rtrancl_into_rtrancl)

lemma removeUnreachableBlocks_finished:
  assumes u: "removeUnreachableBlocks E M Fn = Inr (r, M')" and w: "wfBlocks M"
    and d: "distinct (funcs M ! Fn)" and c: "closedI M (funcs M ! Fn)"
    and s: "\<forall>b \<in> set (funcs M ! Fn). settled M b"
  shows "finished M' (funcs M' ! Fn)"
  using u
proof (cases rule: removeUnreachableBlocks_cases)
  case empty
  then show ?thesis by (simp add: finished_def closedT_def swept_def)
next
  case (allreach R)
  let ?F = "funcs M ! Fn"
  note ct = closedI_closedT [OF c]
  note R = collectReachable_correct [OF allreach(3)]
  have hd: "hd ?F \<in> set ?F" using allreach(2) by simp
  have sub: "set R \<subseteq> set ?F" unfolding R(1) by (rule closedT_reachable [OF ct hd])
  have "card (set R) = card (set ?F)"
    using allreach(4) distinct_card [OF R(2)] distinct_card [OF d] by simp
  with sub have "set R = set ?F" by (intro card_subset_eq) simp_all
  with R(1) have "swept M ?F" by (simp add: swept_def)
  with s ct show ?thesis unfolding allreach(6) by (simp add: finished_def)
next
  case (sweep R M1 T r' M2)
  let ?F = "funcs M ! Fn"
  let ?F' = "filter (\<lambda>b. b \<in> set R) ?F"
  let ?S = "set ?F \<inter> set R"
  note ct = closedI_closedT [OF c]
  note R = collectReachable_correct [OF sweep(3)]
  note tc = sweep_touches [OF sweep(1,6,7,8,9)]
  have F': "funcs M' ! Fn = ?F'"
    using sweep_facts(1) [OF sweep(1,6,7,8,9)] sweep(1) by simp
  have ev: "evolves M M'" using tc by (simp add: touches_def)
  have kp: "keepsTerm M M' b" if "b \<in> ?S" for b
    using tc w that by (simp add: touches_def)
  have s': "\<forall>b \<in> set ?F'. settled M' b"
    using s kp ev by (auto intro: settled_keep)
  have hd: "hd ?F \<in> set ?F" using sweep(2) by simp
  have hdR: "hd ?F \<in> set R" unfolding R(1) by (simp add: reachableFrom_def)
  have keep: "\<forall>y \<in> ?S. \<forall>ss. successors M y = Inr ss \<longrightarrow>
      set ss \<subseteq> ?S \<and> successors M' y = Inr ss"
  proof (intro ballI allI impI)
    fix y ss assume y: "y \<in> ?S" and ss: "successors M y = Inr ss"
    have "set ss \<subseteq> set ?F" using ct y ss by (auto simp: closedT_def)
    moreover have "set ss \<subseteq> set R"
      using reachableFrom_closed [OF _ ss, of "hd ?F"] y unfolding R(1) by simp
    moreover have "successors M' y = Inr ss" by (rule successors_keep [OF kp [OF y] ss])
    ultimately show "set ss \<subseteq> ?S \<and> successors M' y = Inr ss" by simp
  qed
  have c': "closedT M' ?F'"
    unfolding closedT_def
  proof (intro ballI allI impI)
    fix b ss' assume b: "b \<in> set ?F'" and ss': "successors M' b = Inr ss'"
    then have bS: "b \<in> ?S" by simp
    with s have "settled M b" by simp
    from settled_successors [OF this] obtain ss where ss: "successors M b = Inr ss" by blast
    with keep bS have "set ss \<subseteq> ?S" "successors M' b = Inr ss" by blast+
    with ss' show "set ss' \<subseteq> set ?F'" by auto
  qed
  from hd_filter [of ?F "\<lambda>b. b \<in> set R", OF sweep(2) hdR]
  have ne: "?F' \<noteq> []" and hd': "hd ?F' = hd ?F" by simp_all
  have "set ?F' \<subseteq> reachableFrom M' (hd ?F)"
  proof
    fix b assume "b \<in> set ?F'"
    then have "b \<in> set R" by simp
    then have "(hd ?F, b) \<in> (succRel M)\<^sup>*" unfolding R(1) by (simp add: reachableFrom_def)
    from reach_keep [OF this _ keep] hd hdR show "b \<in> reachableFrom M' (hd ?F)"
      by (simp add: reachableFrom_def)
  qed
  then have sw': "swept M' ?F'" by (simp add: swept_def hd')
  from s' c' sw' show ?thesis unfolding F' by (simp add: finished_def)
qed

lemma eraseTerminators_skip:
  "set l \<subseteq> set R \<Longrightarrow> eraseTerminators E M l R = Inr M"
  by (induction l) simp_all

lemma collectInsts_skip:
  "set l \<subseteq> set R \<Longrightarrow> collectInsts M l R T = Inr T"
  by (induction l) simp_all

lemma eraseBlocks_skip:
  "set l \<subseteq> set R \<Longrightarrow> eraseBlocks M Fn l R = M"
  by (induction l) simp_all

lemma eraseAndCleanup_Nil: "eraseAndCleanup E M [] = Inr (False, M)"
  by (simp add: eraseAndCleanup_def DenseSet_iter_def)

lemma removeUnreachableBlocks_stable:
  assumes u: "removeUnreachableBlocks E M Fn = Inr (r, M')" and sw: "swept M (funcs M ! Fn)"
  shows "M' = M"
  using u
proof (cases rule: removeUnreachableBlocks_cases)
  case empty
  then show ?thesis by simp
next
  case (allreach R)
  then show ?thesis by simp
next
  case (sweep R M1 T r' M2)
  note R = collectReachable_correct [OF sweep(3)]
  from sw sweep(2) have sub: "set (funcs M ! Fn) \<subseteq> set R" by (simp add: swept_def R(1))
  from sweep(6) have M1: "M1 = M" by (simp add: eraseTerminators_skip [OF sub])
  from sweep(7) have T: "T = []" by (simp add: M1 collectInsts_skip [OF sub])
  from sweep(8) have M2: "M2 = M" by (simp add: M1 T eraseAndCleanup_Nil)
  show ?thesis unfolding sweep(9) M2 by (rule eraseBlocks_skip [OF sub])
qed

text \<open>Well-formedness of a module: the block arena is well-formed, no block is listed
  twice in a function or in two functions, and the instructions of a function branch to
  blocks of that function only.\<close>

definition funcsOK :: "SILModule \<Rightarrow> bool" where
  "funcsOK M =
     ((\<forall>i < length (funcs M). distinct (funcs M ! i)) \<and>
      (\<forall>i < length (funcs M). \<forall>j < length (funcs M).
         i \<noteq> j \<longrightarrow> (\<forall>b \<in> set (funcs M ! i). b \<notin> set (funcs M ! j))))"

definition wfModule :: "SILModule \<Rightarrow> bool" where
  "wfModule M = (wfBlocks M \<and> funcsOK M \<and> (\<forall>i < length (funcs M). closedI M (funcs M ! i)))"

text \<open>No block of a function holds a call to a no-return function.\<close>

definition quiet :: "SILModule \<Rightarrow> bool" where
  "quiet M =
     (\<forall>i < length (funcs M). \<forall>b \<in> set (funcs M ! i). \<forall>I \<in> set (blockList M b).
        \<not> isNoReturnCall M I)"

lemma funcsOK_code [code]:
  "funcsOK M =
     ((\<forall>i \<in> set [0..<length (funcs M)]. distinct (funcs M ! i)) \<and>
      (\<forall>i \<in> set [0..<length (funcs M)]. \<forall>j \<in> set [0..<length (funcs M)].
         i \<noteq> j \<longrightarrow> (\<forall>b \<in> set (funcs M ! i). b \<notin> set (funcs M ! j))))"
  by (simp add: funcsOK_def Ball_def)

lemma wfModule_code [code]:
  "wfModule M =
     (wfBlocks M \<and> funcsOK M \<and> (\<forall>i \<in> set [0..<length (funcs M)]. closedI M (funcs M ! i)))"
  by (simp add: wfModule_def Ball_def)

lemma quiet_code [code]:
  "quiet M =
     (\<forall>i \<in> set [0..<length (funcs M)]. \<forall>b \<in> set (funcs M ! i). \<forall>I \<in> set (blockList M b).
        \<not> isNoReturnCall M I)"
  by (simp add: quiet_def Ball_def)

lemma funcsOK_iff:
  "funcsOK M \<longleftrightarrow>
     (\<forall>i < length (funcs M). distinct (funcs M ! i)) \<and>
     (\<forall>i < length (funcs M). \<forall>j < length (funcs M).
        i \<noteq> j \<longrightarrow> set (funcs M ! i) \<inter> set (funcs M ! j) = {})"
  unfolding funcsOK_def by blast

lemma touches_closedI:
  "touches B M M' \<Longrightarrow> wfBlocks M \<Longrightarrow> closedI M F \<Longrightarrow> closedI M' F"
  unfolding touches_def closedI_def by blast

lemma touches_finished:
  assumes "touches B M M'" and "wfBlocks M" and "finished M F" and "set F \<inter> B = {}"
  shows "finished M' F"
  using assms by (intro finished_keep [OF assms(3)]) (auto simp: touches_def)

lemma removeUnreachableBlocks_summary:
  assumes u: "removeUnreachableBlocks E M Fn = Inr (r, M')"
  shows "Fn < length (funcs M) \<and> touches (set (funcs M ! Fn)) M M' \<and>
         (\<exists>P. funcs M' = (funcs M)[Fn := filter P (funcs M ! Fn)])"
  using u
proof (cases rule: removeUnreachableBlocks_cases)
  case empty
  have "\<exists>P. funcs M = (funcs M)[Fn := filter P (funcs M ! Fn)]"
    by (rule exI [of _ "\<lambda>b. True"]) simp
  with empty(1,4) show ?thesis by (simp add: touches_refl)
next
  case (allreach R)
  have "\<exists>P. funcs M = (funcs M)[Fn := filter P (funcs M ! Fn)]"
    by (rule exI [of _ "\<lambda>b. True"]) simp
  with allreach(1,6) show ?thesis by (simp add: touches_refl)
next
  case (sweep R M1 T r' M2)
  have "touches (set (funcs M ! Fn)) M M'"
    by (rule touches_mono [OF sweep_touches [OF sweep(1,6,7,8,9)]]) auto
  with sweep(1) sweep_facts(1) [OF sweep(1,6,7,8,9)] show ?thesis by blast
qed

lemma funcsOK_filter:
  fixes M M' :: SILModule
  assumes ok: "funcsOK M" and f: "funcs M' = (funcs M)[Fn := filter P (funcs M ! Fn)]"
  shows "funcsOK M'"
proof -
  have len: "length (funcs M') = length (funcs M)" by (simp add: f)
  have sub: "set (funcs M' ! i) \<subseteq> set (funcs M ! i)" if "i < length (funcs M)" for i
    using that by (cases "i = Fn") (auto simp: f)
  have dis: "distinct (funcs M' ! i)" if "i < length (funcs M)" for i
    using that ok by (cases "i = Fn") (auto simp: f funcsOK_iff)
  show ?thesis
    unfolding funcsOK_iff len
  proof (intro conjI allI impI)
    fix i assume "i < length (funcs M)"
    then show "distinct (funcs M' ! i)" by (rule dis)
  next
    fix i j assume ij: "i < length (funcs M)" "j < length (funcs M)" "i \<noteq> j"
    with ok have "set (funcs M ! i) \<inter> set (funcs M ! j) = {}" by (simp add: funcsOK_iff)
    with sub [OF ij(1)] sub [OF ij(2)] show "set (funcs M' ! i) \<inter> set (funcs M' ! j) = {}"
      by blast
  qed
qed

lemma processFunctions_finished:
  assumes "processFunctions E M ks = Inr M'" and "wfBlocks M" and "funcsOK M"
    and "distinct ks"
    and "\<forall>k \<in> set ks. k < length (funcs M) \<and> closedI M (funcs M ! k)"
    and "\<forall>j < length (funcs M). j \<notin> set ks \<longrightarrow> finished M (funcs M ! j)"
  shows "length (funcs M') = length (funcs M) \<and>
         (\<forall>j < length (funcs M'). finished M' (funcs M' ! j))"
  using assms
proof (induction ks arbitrary: M)
  case Nil
  then show ?case by simp
next
  case (Cons k rest)
  let ?F = "funcs M ! k"
  from Cons.prems(1) obtain M1 r M2 where p: "processBlocks E M ?F = Inr M1"
    and u: "removeUnreachableBlocks E M1 k = Inr (r, M2)"
    and rest: "processFunctions E M2 rest = Inr M'"
    by (auto split: sum.splits)
  note w = Cons.prems(2) and ok = Cons.prems(3)
  from Cons.prems(4) have k_rest: "k \<notin> set rest" and d_rest: "distinct rest" by simp_all
  from Cons.prems(5) have k: "k < length (funcs M)" and ck: "closedI M ?F" by simp_all
  \<comment> \<open>the loop over the blocks\<close>
  note t1 = processBlocks_touches [OF p]
  have f1: "funcs M1 = funcs M" using processBlocks_fields [OF p] by simp
  have w1: "wfBlocks M1" by (rule touches_wf [OF t1 w])
  have s1: "\<forall>b \<in> set ?F. settled M1 b"
    using processBlocks_settles [OF p w, of "{}"] by simp
  have c1: "closedI M1 (funcs M ! j)" if "closedI M (funcs M ! j)" for j
    by (rule touches_closedI [OF t1 w that])
  have disj: "set (funcs M ! j) \<inter> set ?F = {}" if "j < length (funcs M)" "j \<noteq> k" for j
    using ok that k by (simp add: funcsOK_iff)
  have fin1: "finished M1 (funcs M ! j)"
    if "j < length (funcs M)" "j \<notin> set (k # rest)" for j
  proof -
    from that Cons.prems(6) have "finished M (funcs M ! j)" by blast
    moreover from that have "set (funcs M ! j) \<inter> set ?F = {}" by (intro disj) auto
    ultimately show ?thesis by (rule touches_finished [OF t1 w])
  qed
  \<comment> \<open>the sweep\<close>
  from removeUnreachableBlocks_summary [OF u] obtain P where
    t2: "touches (set ?F) M1 M2" and f2: "funcs M2 = (funcs M)[k := filter P ?F]"
    by (auto simp: f1)
  have len2: "length (funcs M2) = length (funcs M)" by (simp add: f2)
  have nth2: "funcs M2 ! j = funcs M ! j" if "j \<noteq> k" for j using that by (simp add: f2)
  have w2: "wfBlocks M2" by (rule touches_wf [OF t2 w1])
  have ok1: "funcsOK M1" using ok by (simp add: funcsOK_iff f1)
  have ok2: "funcsOK M2" by (rule funcsOK_filter [OF ok1]) (simp add: f1 f2)
  have dk: "distinct (funcs M1 ! k)" using ok k by (simp add: funcsOK_iff f1)
  have fink: "finished M2 (funcs M2 ! k)"
    by (rule removeUnreachableBlocks_finished [OF u w1 dk])
       (simp_all add: f1 c1 [OF ck] s1)
  have a5: "\<forall>k' \<in> set rest. k' < length (funcs M2) \<and> closedI M2 (funcs M2 ! k')"
  proof
    fix k' assume k': "k' \<in> set rest"
    with k_rest have ne: "k' \<noteq> k" by auto
    from k' Cons.prems(5) have "k' < length (funcs M)" "closedI M (funcs M ! k')" by simp_all
    with touches_closedI [OF t2 w1 c1] show "k' < length (funcs M2) \<and> closedI M2 (funcs M2 ! k')"
      by (simp add: len2 nth2 [OF ne])
  qed
  have a6: "\<forall>j < length (funcs M2). j \<notin> set rest \<longrightarrow> finished M2 (funcs M2 ! j)"
  proof (intro allI impI)
    fix j assume j: "j < length (funcs M2)" "j \<notin> set rest"
    show "finished M2 (funcs M2 ! j)"
    proof (cases "j = k")
      case True
      then show ?thesis using fink by simp
    next
      case False
      with j have jj: "j < length (funcs M)" "j \<notin> set (k # rest)" by (simp_all add: len2)
      from touches_finished [OF t2 w1 fin1 [OF jj]] disj [OF jj(1) False]
      show ?thesis by (simp add: nth2 [OF False])
    qed
  qed
  from Cons.IH [OF rest w2 ok2 d_rest a5 a6] show ?case by (simp add: len2)
qed

lemma processFunctions_stable:
  assumes "processFunctions E M ks = Inr M'"
    and "\<forall>k \<in> set ks. k < length (funcs M) \<and> finished M (funcs M ! k)" and "quiet M"
  shows "M' = M"
  using assms(1,2)
proof (induction ks)
  case Nil
  then show ?case by simp
next
  case (Cons k rest)
  from Cons.prems(1) obtain M1 r M2 where p: "processBlocks E M (funcs M ! k) = Inr M1"
    and u: "removeUnreachableBlocks E M1 k = Inr (r, M2)"
    and rest: "processFunctions E M2 rest = Inr M'"
    by (auto split: sum.splits)
  from Cons.prems(2) have k: "k < length (funcs M)" and fin: "finished M (funcs M ! k)"
    by simp_all
  have "\<forall>b \<in> set (funcs M ! k).
      settled M b \<and> (\<forall>I \<in> set (blockList M b). \<not> isNoReturnCall M I)"
    using fin assms(3) k by (auto simp: finished_def quiet_def)
  from processBlocks_stable [OF p this] have M1: "M1 = M" .
  from fin have "swept M (funcs M ! k)" by (simp add: finished_def)
  from removeUnreachableBlocks_stable [OF u [unfolded M1] this] have "M2 = M" .
  with rest Cons.IH Cons.prems(2) show ?case by simp
qed

lemma performSILDeadCodeElimination_finished:
  assumes "wfModule M" and "performSILDeadCodeElimination E M = Inr M1"
  shows "\<forall>j < length (funcs M1). finished M1 (funcs M1 ! j)"
proof -
  from assms(2) have p: "processFunctions E M [0..<length (funcs M)] = Inr M1"
    by (simp add: performSILDeadCodeElimination_def)
  from assms(1) have w: "wfBlocks M" and ok: "funcsOK M"
    and c: "\<forall>k \<in> set [0..<length (funcs M)]. k < length (funcs M) \<and> closedI M (funcs M ! k)"
    by (simp_all add: wfModule_def)
  have "\<forall>j < length (funcs M). j \<notin> set [0..<length (funcs M)] \<longrightarrow> finished M (funcs M ! j)"
    by simp
  from processFunctions_finished [OF p w ok distinct_upt c this] show ?thesis by simp
qed

text \<open>C3, as the code has it: the pass is not idempotent on every module.  A block that
  still holds a call to a no-return function is truncated again by the next run, which
  destroys the \<open>unreachable\<close> terminator, creates a new one and increments the
  instructions-removed counter.  When the output of the first run of the pass on a
  well-formed module holds no call to a no-return function, a second run that completes
  returns that output unchanged, both counters included.\<close>

theorem second_run_changes_nothing:
  assumes "wfModule M" and "performSILDeadCodeElimination E M = Inr M1" and "quiet M1"
    and "performSILDeadCodeElimination E M1 = Inr M2"
  shows "M2 = M1"
proof -
  from assms(4) have p: "processFunctions E M1 [0..<length (funcs M1)] = Inr M2"
    by (simp add: performSILDeadCodeElimination_def)
  from performSILDeadCodeElimination_finished [OF assms(1,2)]
  have "\<forall>k \<in> set [0..<length (funcs M1)]. k < length (funcs M1) \<and> finished M1 (funcs M1 ! k)"
    by simp
  from processFunctions_stable [OF p this assms(3)] show ?thesis .
qed

theorem second_run_changes_nothing_witness:
  "wfModule exFold \<and>
   (case performSILDeadCodeElimination exEnv exFold of
      Inl e \<Rightarrow> False
    | Inr M1 \<Rightarrow>
        quiet M1 \<and> NumBlocksRemoved M1 = 1 \<and> blocks M1 = [Some [4], Some [2], None] \<and>
        performSILDeadCodeElimination exEnv M1 = Inr M1)"
proof -
  let ?p = "performSILDeadCodeElimination exEnv exFold"
  have w: "wfModule exFold" by code_simp
  have 1: "case ?p of Inl e \<Rightarrow> False
    | Inr M1 \<Rightarrow> quiet M1 \<and> NumBlocksRemoved M1 = 1 \<and> blocks M1 = [Some [4], Some [2], None] \<and>
        (case performSILDeadCodeElimination exEnv M1 of Inl e \<Rightarrow> False | Inr M2 \<Rightarrow> True)"
    by code_simp
  then obtain M1 where eq1: "?p = Inr M1" by (cases ?p) auto
  from 1 have q: "quiet M1" "NumBlocksRemoved M1 = 1" "blocks M1 = [Some [4], Some [2], None]"
    and 2: "case performSILDeadCodeElimination exEnv M1 of Inl e \<Rightarrow> False | Inr M2 \<Rightarrow> True"
    unfolding eq1 by simp_all
  from 2 obtain M2 where eq2: "performSILDeadCodeElimination exEnv M1 = Inr M2"
    by (cases "performSILDeadCodeElimination exEnv M1") auto
  from second_run_changes_nothing [OF w eq1 q(1) eq2] have "M2 = M1" .
  with eq2 q w show ?thesis unfolding eq1 by simp
qed

theorem second_run_truncates_again:
  "wfModule exNoReturn \<and>
   (case performSILDeadCodeElimination exEnv exNoReturn of
      Inl e \<Rightarrow> False
    | Inr M1 \<Rightarrow>
        (case performSILDeadCodeElimination exEnv M1 of
           Inl e \<Rightarrow> False
         | Inr M2 \<Rightarrow>
             NumInstructionsRemoved M1 = 1 \<and> NumInstructionsRemoved M2 = 2 \<and>
             blocks M1 = [Some [0, 2]] \<and> blocks M2 = [Some [0, 3]] \<and>
             isLive M1 2 \<and> \<not> isLive M2 2))"
  by code_simp

section \<open>The statistics counters over a run (claim C9)\<close>










end
